theory Spec2Isabelle
  imports
    Complex_Main
    "HOL-Library.Sublist"
    "HOL-Library.Log_Nat"
    "HOL-Library.Char_ord"
    "HOL-Library.List_Lexorder"
    "HOL-Library.Product_Lexorder"
    "HOL-Library.AList"
begin

section \<open>Python strings\<close>

text \<open>
  A Python \<open>str\<close> is a sequence of code points. The model is \<^typ>\<open>string\<close>, a list of
  \<^typ>\<open>char\<close>, and a \<^typ>\<open>char\<close> is read as the code point U+0000 .. U+00FF with the same
  number (Latin-1), so \<open>len\<close> is \<^const>\<open>length\<close>. Texts with a code point above U+00FF
  are outside the model. The character classes below are the ones of CPython's Unicode
  database on that range; \<open>str.isspace\<close> is also the class \<open>\s\<close> of \<open>re\<close>, and
  \<open>str.isalnum\<close> or an underscore is the class \<open>\w\<close>.
\<close>

definition ord :: "char \<Rightarrow> nat" where
  "ord c = of_char c"

definition isspace :: "char \<Rightarrow> bool" where
  "isspace c = (let n = ord c in
     (9 \<le> n \<and> n \<le> 13) \<or> (28 \<le> n \<and> n \<le> 32) \<or> n = 133 \<or> n = 160)"

definition isdigit :: "char \<Rightarrow> bool" where
  "isdigit c = (let n = ord c in
     (48 \<le> n \<and> n \<le> 57) \<or> n = 178 \<or> n = 179 \<or> n = 185)"

definition isalnum :: "char \<Rightarrow> bool" where
  "isalnum c = (let n = ord c in
     (48 \<le> n \<and> n \<le> 57) \<or> (65 \<le> n \<and> n \<le> 90) \<or> (97 \<le> n \<and> n \<le> 122) \<or>
     n = 170 \<or> n = 178 \<or> n = 179 \<or> n = 181 \<or> n = 185 \<or> n = 186 \<or>
     (188 \<le> n \<and> n \<le> 190) \<or> (192 \<le> n \<and> n \<le> 214) \<or> (216 \<le> n \<and> n \<le> 246) \<or>
     (248 \<le> n \<and> n \<le> 255))"

definition is_word :: "char \<Rightarrow> bool" where
  "is_word c = (isalnum c \<or> c = CHR ''_'')"

definition lower_char :: "char \<Rightarrow> char" where
  "lower_char c = (let n = ord c in
     if (65 \<le> n \<and> n \<le> 90) \<or> (192 \<le> n \<and> n \<le> 222 \<and> n \<noteq> 215)
     then char_of (n + 32) else c)"

definition lower :: "string \<Rightarrow> string" where
  "lower s = map lower_char s"

definition strip :: "string \<Rightarrow> string" where
  "strip s = rev (dropWhile isspace (rev (dropWhile isspace s)))"

text \<open>\<open>kw in s\<close>: the text \<open>kw\<close> occurs in \<open>s\<close> as a contiguous run.\<close>

fun str_in :: "string \<Rightarrow> string \<Rightarrow> bool" where
  "str_in kw [] = (kw = [])"
| "str_in kw (c # cs) = (prefix kw (c # cs) \<or> str_in kw cs)"

section \<open>Admission filter (app/utils/sql_safety.py)\<close>

text \<open>
  \<open>SELECT_ONLY_PATTERN = re.compile(r"^\s*select\b", re.IGNORECASE)\<close>, used with \<open>match\<close>:
  a greedy run of whitespace from the start of the text, the six letters in either case
  (on this range a character matches a lower-case pattern letter when its lower-case form
  is that letter), then a word boundary: the end of the text or a character outside
  \<open>\w\<close>. The run of whitespace never has to give a character back, because the letter
  \<open>s\<close> is not whitespace.
\<close>

definition SELECT_ONLY_PATTERN_match :: "string \<Rightarrow> bool" where
  "SELECT_ONLY_PATTERN_match s =
     (let rest = dropWhile isspace s in
        map lower_char (take 6 rest) = ''select'' \<and>
        (case drop 6 rest of [] \<Rightarrow> True | c # _ \<Rightarrow> \<not> is_word c))"

definition FORBIDDEN_KEYWORDS :: "string list" where
  "FORBIDDEN_KEYWORDS =
     [''insert'', ''update'', ''delete'', ''drop'', ''alter'', ''truncate'',
      ''create table'', ''create schema'', ''attach'', ''copy'', ''pragma'']"

text \<open>The loop \<open>for kw in FORBIDDEN_KEYWORDS: if kw in lowered: return False\<close>, then \<open>return True\<close>.\<close>

fun no_forbidden :: "string list \<Rightarrow> string \<Rightarrow> bool" where
  "no_forbidden [] lowered = True"
| "no_forbidden (kw # kws) lowered = (if str_in kw lowered then False else no_forbidden kws lowered)"

definition is_select_only :: "string \<Rightarrow> bool" where
  "is_select_only sql =
     (if \<not> SELECT_ONLY_PATTERN_match sql then False
      else no_forbidden FORBIDDEN_KEYWORDS (lower sql))"



section \<open>Python floats\<close>

text \<open>
  A Python \<open>float\<close> is an IEEE 754 binary64 number; a finite one is a rational, and the
  model is \<^typ>\<open>rat\<close>. Every arithmetic operation returns the exact result rounded to the
  nearest number with a 53-bit significand, ties to the even significand. \<open>fl\<close> is that
  rounding, with an unbounded exponent: overflow to infinity (from \<open>2 ^ 1024\<close>) and the
  subnormal numbers (below \<open>2 ^ - 1022\<close>) are not modelled.
\<close>

definition round_half_even :: "rat \<Rightarrow> int" where
  "round_half_even x =
     (let f = \<lfloor>x\<rfloor>; d = x - of_int f in
      if d < 1 / 2 then f else if 1 / 2 < d then f + 1 else if even f then f else f + 1)"

text \<open>For \<open>0 < x\<close>, the exponent \<open>e\<close> with \<open>2 ^ e \<le> x < 2 ^ (e + 1)\<close>.\<close>

definition floor_log2 :: "rat \<Rightarrow> int" where
  "floor_log2 x = (if 1 \<le> x then bitlen \<lfloor>x\<rfloor> - 1 else - bitlen (\<lceil>1 / x\<rceil> - 1))"

definition fl :: "rat \<Rightarrow> rat" where
  "fl x = (if x = 0 then 0
           else let e = floor_log2 \<bar>x\<bar> - 52
                in of_int (round_half_even (x / 2 powi e)) * 2 powi e)"

definition float_of_int :: "int \<Rightarrow> rat" where
  "float_of_int n = fl (of_int n)"

definition fadd :: "rat \<Rightarrow> rat \<Rightarrow> rat" where
  "fadd a b = fl (a + b)"

definition fsub :: "rat \<Rightarrow> rat \<Rightarrow> rat" where
  "fsub a b = fl (a - b)"

definition fmul :: "rat \<Rightarrow> rat \<Rightarrow> rat" where
  "fmul a b = fl (a * b)"

text \<open>
  \<open>round(x, ndigits)\<close> on a float: CPython writes the exact value of \<open>x\<close> in decimal with
  \<open>ndigits\<close> digits after the point, correctly rounded with ties to even, and reads that
  decimal back as the nearest float.
\<close>

definition py_round :: "rat \<Rightarrow> nat \<Rightarrow> rat" where
  "py_round x ndigits = fl (of_int (round_half_even (x * 10 ^ ndigits)) / 10 ^ ndigits)"

section \<open>Complexity scorer (app/core/scoring.py)\<close>

text \<open>\<open>s.count(sub)\<close>: the number of occurrences of \<open>sub\<close> in \<open>s\<close> that do not overlap, found from
  left to right; for the empty \<open>sub\<close>, \<open>len(s) + 1\<close>.\<close>

function count_sub :: "string \<Rightarrow> string \<Rightarrow> nat" where
  "count_sub sub s =
     (if sub = [] then length s + 1
      else if s = [] then 0
      else if prefix sub s then 1 + count_sub sub (drop (length sub) s)
      else count_sub sub (tl s))"
  by pat_completeness auto
termination
  by (relation "measure (\<lambda>(sub, s). length s)") auto

declare count_sub.simps [simp del]

text \<open>
  \<open>score\<close> starts as the \<open>int\<close> 0 and stays an \<open>int\<close> after the first line (\<open>int * int\<close>);
  from the second line on each product is \<open>int * float\<close> and each sum is a float sum.
  The literals 1.5, 1.0 and 3.0 are floats exactly; the literal 0.2 is the float nearest
  to one fifth.
\<close>

definition complexity_score :: "string \<Rightarrow> rat" where
  "complexity_score sql =
     (let s = lower sql;
          score0 = (0 :: int) + int (count_sub '' join '' s) * 2;
          score1 = fadd (float_of_int score0) (fmul (float_of_int (int (count_sub '' group by '' s))) (3 / 2));
          score2 = fadd score1 (fmul (float_of_int (int (count_sub '' order by '' s))) 1);
          score3 = fadd score2 (fmul (float_of_int (int (count_sub '' over('' s))) 3);
          score4 = fadd score3 (fmul (float_of_int (int (count_sub '' case '' s))) (3 / 2));
          score5 = fadd score4 (fmul (float_of_int (int (count_sub ''('' s))) (fl (1 / 5)))
      in py_round score5 2)"

text \<open>
  The specification's wording: the counts of the six substrings in the lower-cased text,
  each multiplied by its weight and summed, as an exact number; and rounding to two
  decimal places, as an exact decimal.
\<close>

definition weighted_sum :: "string \<Rightarrow> rat" where
  "weighted_sum text =
     (let s = lower text in
        2 * of_nat (count_sub '' join '' s) +
        3 / 2 * of_nat (count_sub '' group by '' s) +
        1 * of_nat (count_sub '' order by '' s) +
        3 * of_nat (count_sub '' over('' s) +
        3 / 2 * of_nat (count_sub '' case '' s) +
        1 / 5 * of_nat (count_sub ''('' s))"

definition round2 :: "rat \<Rightarrow> rat" where
  "round2 x = of_int (round_half_even (x * 100)) / 100"

text \<open>
  The table of weights of the specification, the count of a substring in a text without
  regard to case, and two texts that agree on every count of the table but for one
  substring, which the second text has once more.
\<close>

definition WEIGHTED_SUBSTRINGS :: "(string \<times> rat) list" where
  "WEIGHTED_SUBSTRINGS =
     [('' join '', 2), ('' group by '', 3 / 2), ('' order by '', 1),
      ('' over('', 3), ('' case '', 3 / 2), (''('', 1 / 5)]"

definition occurrences :: "string \<Rightarrow> string \<Rightarrow> nat" where
  "occurrences sub text = count_sub sub (lower text)"

definition one_more :: "string \<Rightarrow> string \<Rightarrow> string \<Rightarrow> bool" where
  "one_more sub t1 t2 =
     (occurrences sub t2 = occurrences sub t1 + 1 \<and>
      (\<forall>other \<in> set (map fst WEIGHTED_SUBSTRINGS).
         other \<noteq> sub \<longrightarrow> occurrences other t2 = occurrences other t1))"

section \<open>Formatting helpers\<close>

text \<open>\<open>str(n)\<close> for a Python \<open>int\<close>, as an f-string renders it: decimal digits, a minus sign first
  when negative.\<close>

fun str_nat :: "nat \<Rightarrow> string" where
  "str_nat n = (if n < 10 then [char_of (48 + n)]
                else str_nat (n div 10) @ [char_of (48 + n mod 10)])"

declare str_nat.simps [simp del]

definition str_int :: "int \<Rightarrow> string" where
  "str_int i = (if i < 0 then CHR ''-'' # str_nat (nat (- i)) else str_nat (nat i))"

section \<open>Prompt fragments, token estimate, table names (app/core/fight\_manager.py)\<close>

definition theme_prompt :: "string \<Rightarrow> string" where
  "theme_prompt theme0 =
     (let theme = strip (lower theme0) in
      if theme = ''finance bros'' then
        ''Make an absurd finance-style query referencing salaries, bonuses, '' @
        ''offshore accounts, and suspicious transactions.''
      else if theme = ''space pirates'' then
        ''Make a chaotic, space-pirate themed query about stolen goods, '' @
        ''illegal trades, and intergalactic bounties.''
      else if theme = ''healthcare'' then
        ''Make a healthcare-flavored query about patients, treatments, '' @
        ''billing, and questionable procedures.''
      else if theme = ''gaming'' then
        ''Make a gaming-style query about players, scores, loot drops, '' @
        ''and ridiculous achievements.''
      else if theme = ''fantasy kingdom'' then
        ''Make a fantasy kingdom query involving dragons, gold, quests, '' @
        ''and wildly unbalanced magic items.''
      else
        ''Write an absurd, theatrical SQL query that surfaces the 'weirdest' '' @
        ''things in the data.'')"

definition difficulty_prompt :: "string \<Rightarrow> string" where
  "difficulty_prompt difficulty0 =
     (let difficulty = strip (lower difficulty0) in
      if difficulty = ''tryhard'' then
        ''Use at least one JOIN, GROUP BY, and a CASE expression to make it more complex.''
      else if difficulty = ''insane window functions'' then
        ''Use multiple JOINs, nested subqueries, CTEs, and window functions '' @
        ''to make the query hilariously overengineered.''
      else
        ''Keep it relatively simple but still weird. One or two joins max, '' @
        ''no need for heavy window functions.'')"

definition estimate_tokens :: "string \<Rightarrow> int" where
  "estimate_tokens text = (if text = [] then 0 else max 1 (int (length text) div 4))"

text \<open>
  \<open>_sanitize_table_name\<close>. \<open>name[0]\<close> is read only after the second emptiness test has
  replaced an empty name, so \<^const>\<open>hd\<close> is applied to a non-empty list.
\<close>

definition sanitize_table_name :: "string \<Rightarrow> string" where
  "sanitize_table_name name0 =
     (let name1 = strip name0 in
      if name1 = [] then ''user_table''
      else
        let name2 = map (\<lambda>c. if c = CHR '' '' then CHR ''_'' else c) (lower name1);
            name3 = filter (\<lambda>ch. isalnum ch \<or> ch = CHR ''_'') name2;
            name4 = (if name3 = [] then ''user_table'' else name3)
        in if isdigit (hd name4) then ''t_'' @ name4 else name4)"

section \<open>Schema introspector (app/core/fight\_manager.py)\<close>

text \<open>
  The catalog of the database is the relation \<open>information_schema.columns\<close>: one entry
  per column of a table, in the order the engine scans them. A table is known by the
  database it lives in (\<open>table_catalog\<close>: \<open>memory\<close> for the in-process database, \<open>temp\<close> for
  temporary tables and registered views), its schema and its name.
\<close>

record column_entry =
  table_catalog :: string
  table_schema :: string
  table_name :: string
  column_name :: string
  data_type :: string
  ordinal_position :: int

type_synonym catalog = "column_entry list"

text \<open>
  The query of \<open>introspect_schema\<close>:
  \<open>SELECT table_name, column_name, data_type FROM information_schema.columns
    WHERE table_schema = 'main' ORDER BY table_name, ordinal_position\<close>.
  Names are ordered character by character; rows with the same table name and position
  keep the order of the scan.
\<close>

definition main_columns :: "catalog \<Rightarrow> column_entry list" where
  "main_columns cat = filter (\<lambda>c. table_schema c = ''main'') cat"

definition schema_query :: "catalog \<Rightarrow> (string \<times> string \<times> string) list" where
  "schema_query cat =
     map (\<lambda>c. (table_name c, column_name c, data_type c))
       (sort_key (\<lambda>c. (table_name c, ordinal_position c)) (main_columns cat))"

text \<open>The loop over the rows, with \<open>current_table\<close> as it is before the row.\<close>

fun schema_lines :: "string option \<Rightarrow> (string \<times> string \<times> string) list \<Rightarrow> string list" where
  "schema_lines current_table [] = []"
| "schema_lines current_table ((tname, col_name, dtype) # rows) =
     (if Some tname \<noteq> current_table then [[CHR 0x0A] @ ''TABLE '' @ tname @ '':''] else [])
     @ [''  - '' @ col_name @ '' ('' @ dtype @ '')'']
     @ schema_lines (Some tname) rows"

text \<open>\<open>sep.join(lines)\<close>.\<close>

fun join :: "string \<Rightarrow> string list \<Rightarrow> string" where
  "join sep [] = []"
| "join sep [x] = x"
| "join sep (x # y # ys) = x @ sep @ join sep (y # ys)"

definition introspect_schema :: "catalog \<Rightarrow> string" where
  "introspect_schema cat = join [CHR 0x0A] (schema_lines None (schema_query cat))"

text \<open>
  The specification's wording: for each table, ordered by name, a header line and then
  one line per column, ordered by declared position, with the column's name and type.
  The tables are the ones the entries of the schema \<open>main\<close> belong to, each known by its
  name and its database.
\<close>

definition header_line :: "string \<Rightarrow> string" where
  "header_line tname = [CHR 0x0A] @ ''TABLE '' @ tname @ '':''"

definition column_line :: "column_entry \<Rightarrow> string" where
  "column_line c = ''  - '' @ column_name c @ '' ('' @ data_type c @ '')''"

definition table_id :: "column_entry \<Rightarrow> string \<times> string" where
  "table_id c = (table_name c, table_catalog c)"

definition main_tables :: "catalog \<Rightarrow> (string \<times> string) list" where
  "main_tables cat = sorted_list_of_set (table_id ` set (main_columns cat))"

definition columns_of :: "catalog \<Rightarrow> string \<times> string \<Rightarrow> column_entry list" where
  "columns_of cat tid =
     sort_key ordinal_position (filter (\<lambda>c. table_id c = tid) (main_columns cat))"

definition table_block :: "catalog \<Rightarrow> string \<times> string \<Rightarrow> string list" where
  "table_block cat tid = header_line (fst tid) # map column_line (columns_of cat tid)"

definition per_table_lines :: "catalog \<Rightarrow> string list" where
  "per_table_lines cat = concat (map (table_block cat) (main_tables cat))"

text \<open>
  What the loop groups by is the table name alone: the names that occur in the schema, in
  order, and under each name every entry that carries it, in the order of the positions.
  \<open>names_unique\<close>: no two tables of the schema share a name.
\<close>

definition described_names :: "catalog \<Rightarrow> string list" where
  "described_names cat = sorted_list_of_set (table_name ` set (main_columns cat))"

definition name_block :: "catalog \<Rightarrow> string \<Rightarrow> string list" where
  "name_block cat tname =
     header_line tname #
     map column_line
       (sort_key ordinal_position (filter (\<lambda>c. table_name c = tname) (main_columns cat)))"

definition names_unique :: "catalog \<Rightarrow> bool" where
  "names_unique cat =
     list_all (\<lambda>c. list_all (\<lambda>c'. table_name c' \<noteq> table_name c \<or> table_catalog c' = table_catalog c)
                      (main_columns cat))
       (main_columns cat)"

text \<open>
  For the proofs: the line of one row of the query, the block of lines of one table among
  the rows, and the rows rendered table by table.
\<close>

definition row_line :: "string \<times> string \<times> string \<Rightarrow> string" where
  "row_line r = ''  - '' @ fst (snd r) @ '' ('' @ snd (snd r) @ '')''"

definition block :: "(string \<times> string \<times> string) list \<Rightarrow> string \<Rightarrow> string list" where
  "block rows t = header_line t # map row_line (filter (\<lambda>r. fst r = t) rows)"

definition groups :: "(string \<times> string \<times> string) list \<Rightarrow> string list" where
  "groups rows = concat (map (block rows) (remdups_adj (map fst rows)))"

text \<open>
  Two catalogs to evaluate the model on. \<open>sample_catalog\<close>: the two seeded tables and a
  table of another schema. \<open>shadowed_catalog\<close>: a table \<open>t\<close> of the database and a
  temporary table of the same name, both in the schema \<open>main\<close>.
\<close>

definition sample_catalog :: catalog where
  "sample_catalog =
     [\<lparr>table_catalog = ''memory'', table_schema = ''main'', table_name = ''transactions'',
       column_name = ''amount'', data_type = ''DOUBLE'', ordinal_position = 2\<rparr>,
      \<lparr>table_catalog = ''memory'', table_schema = ''main'', table_name = ''people'',
       column_name = ''name'', data_type = ''VARCHAR'', ordinal_position = 2\<rparr>,
      \<lparr>table_catalog = ''memory'', table_schema = ''staging'', table_name = ''scratch'',
       column_name = ''x'', data_type = ''INTEGER'', ordinal_position = 1\<rparr>,
      \<lparr>table_catalog = ''memory'', table_schema = ''main'', table_name = ''transactions'',
       column_name = ''txn_id'', data_type = ''BIGINT'', ordinal_position = 1\<rparr>,
      \<lparr>table_catalog = ''memory'', table_schema = ''main'', table_name = ''people'',
       column_name = ''id'', data_type = ''BIGINT'', ordinal_position = 1\<rparr>]"

definition shadowed_catalog :: catalog where
  "shadowed_catalog =
     [\<lparr>table_catalog = ''memory'', table_schema = ''main'', table_name = ''t'',
       column_name = ''a'', data_type = ''INTEGER'', ordinal_position = 1\<rparr>,
      \<lparr>table_catalog = ''memory'', table_schema = ''main'', table_name = ''t'',
       column_name = ''b'', data_type = ''INTEGER'', ordinal_position = 2\<rparr>,
      \<lparr>table_catalog = ''temp'', table_schema = ''main'', table_name = ''t'',
       column_name = ''x'', data_type = ''VARCHAR'', ordinal_position = 1\<rparr>]"

section \<open>Turn records (app/models/fight\_log.py)\<close>

text \<open>
  A row of a preview is a Python \<open>dict\<close> from column names to values, kept as an
  association list in insertion order; \<open>'v\<close> is the type of database values. The field
  \<open>complexity_score\<close> of the dataclass is \<open>score\<close> here, the name of the local variable it
  is filled from, because the scoring function already has the name.
\<close>

type_synonym 'v row = "(string \<times> 'v) list"

record 'v AgentTurn =
  round_number :: int
  agent_name :: string
  prompt :: string
  sql :: string
  is_valid_sql :: bool
  error :: "string option"
  rows_preview :: "'v row list option"
  score :: rat
  duration_seconds :: rat
  estimated_tokens :: "int option"

section \<open>Fight orchestrator (app/core/fight\_manager.py)\<close>

datatype exn =
    ValueError string
  | IndexError
  | TypeError
  | Raised string

text \<open>
  Everything outside the orchestrator is a field of the world it runs in. An agent is an
  object, named by a reference (a number), so that \<open>current_agent is self.agent_a\<close> is
  equality of references. Its \<open>generate_sql\<close> may answer differently on every call and may
  raise; the round number stands for the moment of the call. The database engine
  answers \<open>execute\<close> with an exception message, or with the description of the result (the
  column names, possibly absent) and its rows. \<open>Raised\<close> is an exception coming from an
  agent or from the progress callback.
\<close>

record 'v world =
  name_of :: "nat \<Rightarrow> string"
  generate_sql :: "nat \<Rightarrow> int \<Rightarrow> string \<Rightarrow> string option \<Rightarrow> string option \<Rightarrow> string \<Rightarrow> exn + string"
  conn_execute :: "int \<Rightarrow> string \<Rightarrow> string + (string list option \<times> 'v list list)"
  max_rows_preview :: nat
  repr_keys :: "string list \<Rightarrow> string"
  elapsed :: "int \<Rightarrow> rat"

record 'v FightManager =
  agent_a :: nat
  agent_b :: nat
  rounds :: int
  schema_description :: string
  turns :: "'v AgentTurn list"

text \<open>\<open>self.rounds = rounds or settings.fight_rounds_default\<close>, and \<open>self.turns = []\<close>.\<close>

definition new_FightManager :: "nat \<Rightarrow> nat \<Rightarrow> int option \<Rightarrow> int \<Rightarrow> string \<Rightarrow> 'v FightManager" where
  "new_FightManager a b rounds_arg fight_rounds_default schema =
     \<lparr>agent_a = a, agent_b = b,
      rounds = (case rounds_arg of None \<Rightarrow> fight_rounds_default
                | Some r \<Rightarrow> if r = 0 then fight_rounds_default else r),
      schema_description = schema, turns = []\<rparr>"

text \<open>\<open>dict(zip(col_names, row))\<close>: a key that comes again keeps its place and takes the later value.\<close>

definition dict_of :: "(string \<times> 'v) list \<Rightarrow> 'v row" where
  "dict_of kvs = foldl (\<lambda>d (k, v). AList.update k v d) [] kvs"

text \<open>The body of the \<open>try\<close>: an exception anywhere in it leaves \<open>rows_preview\<close> unset.\<close>

definition try_execute :: "'v world \<Rightarrow> int \<Rightarrow> string \<Rightarrow> string + 'v row list" where
  "try_execute w round_num q =
     (case conn_execute w round_num q of
        Inl msg \<Rightarrow> Inl msg
      | Inr (description, all_rows) \<Rightarrow>
          let rows = take (max_rows_preview w) all_rows;
              col_names = (case description of None \<Rightarrow> [] | Some ds \<Rightarrow> ds)
          in Inr (map (\<lambda>row. dict_of (zip col_names row)) rows))"

definition summarize_result :: "'v world \<Rightarrow> 'v row list \<Rightarrow> string" where
  "summarize_result w preview =
     (case preview of
        [] \<Rightarrow> ''No rows returned.''
      | first # _ \<Rightarrow>
          str_nat (length preview) @ '' rows previewed; '' @
          ''first row keys: '' @ repr_keys w (map fst first))"

record 'v fight_state =
  previous_query :: "string option"
  previous_result_summary :: "string option"
  challenge :: string
  current_agent :: nat
  human_turn_index :: nat
  self_turns :: "'v AgentTurn list"

text \<open>How the SQL of a turn is obtained: the text, the token estimate and the next human index.\<close>

definition obtain_sql ::
  "'v world \<Rightarrow> 'v FightManager \<Rightarrow> string \<Rightarrow> string list option \<Rightarrow> int \<Rightarrow> 'v fight_state \<Rightarrow>
     exn + (string \<times> int \<times> nat)" where
  "obtain_sql w m mode human_sqls round_num st =
     (if mode = ''you_vs_ai'' \<and> current_agent st = agent_a m then
        (case human_sqls of
           None \<Rightarrow> Inl TypeError
         | Some hs \<Rightarrow>
             if human_turn_index st < length hs
             then Inr (hs ! human_turn_index st, 0, human_turn_index st + 1)
             else Inl IndexError)
      else
        (case generate_sql w (current_agent st) round_num (schema_description m)
                (previous_query st) (previous_result_summary st) (challenge st) of
           Inl e \<Rightarrow> Inl e
         | Inr q \<Rightarrow> Inr (q, estimate_tokens q, human_turn_index st)))"

text \<open>
  The loop over \<open>range(1, self.rounds + 1)\<close>. An exception ends it and leaves \<open>self.turns\<close>
  as it is at that moment.
\<close>

fun fight_loop ::
  "'v world \<Rightarrow> 'v FightManager \<Rightarrow> string \<Rightarrow> string list option \<Rightarrow> string \<Rightarrow> string \<Rightarrow>
     (int \<Rightarrow> int \<Rightarrow> exn option) option \<Rightarrow> int list \<Rightarrow> 'v fight_state \<Rightarrow> exn option \<times> 'v fight_state" where
  "fight_loop w m mode human_sqls theme difficulty_text on_progress [] st = (None, st)"
| "fight_loop w m mode human_sqls theme difficulty_text on_progress (round_num # rest) st =
     (case obtain_sql w m mode human_sqls round_num st of
        Inl e \<Rightarrow> (Some e, st)
      | Inr (q, tokens, human_index) \<Rightarrow>
          let valid = is_select_only q;
              outcome =
                (if \<not> valid
                 then (Some ''Rejected: query is not SELECT-only or contains forbidden keywords.'', None)
                 else (case try_execute w round_num q of
                         Inl msg \<Rightarrow> (Some msg, None)
                       | Inr preview \<Rightarrow> (None, Some preview)));
              err = fst outcome;
              preview = snd outcome;
              turn = \<lparr>round_number = round_num,
                      agent_name = name_of w (current_agent st),
                      prompt = challenge st,
                      sql = q,
                      is_valid_sql = (valid \<and> err = None),
                      error = err,
                      rows_preview = preview,
                      score = complexity_score q,
                      duration_seconds = elapsed w round_num,
                      estimated_tokens = Some tokens\<rparr>;
              st1 = st\<lparr>human_turn_index := human_index,
                       self_turns := self_turns st @ [turn],
                       previous_query := Some q,
                       previous_result_summary :=
                         Some (summarize_result w (case preview of None \<Rightarrow> [] | Some rows \<Rightarrow> rows)),
                       challenge :=
                         ''Building on the previous query and result, stay in the ''
                         @ [CHR 0x27] @ theme @ [CHR 0x27] @ '' theme. '' @ difficulty_text
                         @ '' Make it even more outrageous and complex than before.''\<rparr>
          in (case (case on_progress of None \<Rightarrow> None | Some notify \<Rightarrow> notify round_num (rounds m)) of
                Some e \<Rightarrow> (Some e, st1)
              | None \<Rightarrow>
                  fight_loop w m mode human_sqls theme difficulty_text on_progress rest
                    (st1\<lparr>current_agent :=
                           (if current_agent st1 = agent_a m then agent_b m else agent_a m)\<rparr>)))"

text \<open>The validation of the human mode, before the loop.\<close>

definition preflight :: "'v FightManager \<Rightarrow> string \<Rightarrow> string list option \<Rightarrow> exn option" where
  "preflight m mode human_sqls =
     (if mode = ''you_vs_ai'' then
        let expected_human_turns = rounds m div 2;
            absent = (case human_sqls of None \<Rightarrow> True | Some hs \<Rightarrow> hs = []);
            n = (case human_sqls of None \<Rightarrow> 0 | Some hs \<Rightarrow> int (length hs))
        in if absent \<or> n \<noteq> expected_human_turns
           then Some (ValueError (''Expected '' @ str_int expected_human_turns @
                  '' human SQL queries, but got '' @ str_int (if absent then 0 else n) @ ''.''))
           else None
      else None)"

text \<open>The local variables as the loop finds them at its first round.\<close>

definition initial_state :: "'v FightManager \<Rightarrow> string \<Rightarrow> string \<Rightarrow> 'v fight_state" where
  "initial_state m theme difficulty =
     (let theme_text = theme_prompt theme;
          difficulty_text = difficulty_prompt difficulty;
          base_challenge = theme_text @ '' '' @ difficulty_text
      in \<lparr>previous_query = None, previous_result_summary = None,
          challenge = base_challenge, current_agent = agent_a m,
          human_turn_index = 0, self_turns = turns m\<rparr>)"

text \<open>How the loop ends: \<open>return self.turns\<close>, or the exception that left it. Either way
  the manager keeps the turns appended so far.\<close>

definition finish ::
  "'v FightManager \<Rightarrow> exn option \<times> 'v fight_state \<Rightarrow> (exn + 'v AgentTurn list) \<times> 'v FightManager" where
  "finish m r =
     (case r of
        (Some e, st) \<Rightarrow> (Inl e, m\<lparr>turns := self_turns st\<rparr>)
      | (None, st) \<Rightarrow> (Inr (self_turns st), m\<lparr>turns := self_turns st\<rparr>))"

definition run_fight ::
  "'v world \<Rightarrow> 'v FightManager \<Rightarrow> string \<Rightarrow> string list option \<Rightarrow> string \<Rightarrow> string \<Rightarrow>
     (int \<Rightarrow> int \<Rightarrow> exn option) option \<Rightarrow> (exn + 'v AgentTurn list) \<times> 'v FightManager" where
  "run_fight w m mode human_sqls theme difficulty on_progress =
     (case preflight m mode human_sqls of
        Some e \<Rightarrow> (Inl e, m)
      | None \<Rightarrow>
          finish m (fight_loop w m mode human_sqls theme (difficulty_prompt difficulty) on_progress
                      [1..rounds m] (initial_state m theme difficulty)))"

section \<open>A sample fight\<close>

text \<open>
  The end-to-end scenario of the specification, used to evaluate the model: a table
  \<open>t\<close> of two columns and five rows, two agents that always answer \<open>SELECT * FROM t\<close>, a
  manager of two rounds. \<open>failing_world\<close> is the same world with agents whose call raises.
\<close>

definition sample_world :: "int world" where
  "sample_world =
     \<lparr>name_of = (\<lambda>r. if r = 0 then ''Agent A'' else ''Agent B''),
      generate_sql = (\<lambda>agent round_num schema pq ps ch. Inr ''SELECT * FROM t''),
      conn_execute = (\<lambda>round_num q.
         Inr (Some [''k'', ''v''], [[1, 10], [2, 20], [3, 30], [4, 40], [5, 50]])),
      max_rows_preview = 20,
      repr_keys = (\<lambda>ks. concat ks),
      elapsed = (\<lambda>round_num. 0)\<rparr>"

definition failing_world :: "int world" where
  "failing_world =
     sample_world\<lparr>generate_sql :=
       (\<lambda>agent round_num schema pq ps ch. Inl (Raised ''connection reset''))\<rparr>"

definition sample_manager :: "int FightManager" where
  "sample_manager = new_FightManager 0 1 (Some 2) 6 ''TABLE t''"

section \<open>The specification's wording of the orchestrator's properties\<close>

text \<open>A turn record is consistent: an error goes with \<open>is_valid_sql == False\<close>, and a valid record
  without error carries a row preview (a list, empty or not).\<close>

definition record_consistent :: "'v AgentTurn \<Rightarrow> bool" where
  "record_consistent t =
     ((error t \<noteq> None \<longrightarrow> \<not> is_valid_sql t) \<and>
      (error t = None \<and> is_valid_sql t \<longrightarrow> rows_preview t \<noteq> None))"

text \<open>The human queries the validation lets through: a list, not empty, of length \<open>rounds // 2\<close>.\<close>

definition preflight_passes :: "'v FightManager \<Rightarrow> string list option \<Rightarrow> bool" where
  "preflight_passes m human_sqls =
     (case human_sqls of None \<Rightarrow> False | Some hs \<Rightarrow> hs \<noteq> [] \<and> int (length hs) = rounds m div 2)"


section \<open>Properties of the admission filter\<close>

lemma str_in_iff_sublist: "str_in kw s \<longleftrightarrow> sublist kw s"
  by (induction s) (auto simp: sublist_Cons_right)

lemma no_forbidden_iff: "no_forbidden kws l \<longleftrightarrow> (\<forall>kw \<in> set kws. \<not> sublist kw l)"
  by (induction kws) (auto simp: str_in_iff_sublist)




text \<open>
  Claim C3. A text whose lower-case form contains one of the eleven denylisted strings, at
  any position, is rejected, whether or not it begins with \<open>SELECT\<close>.
\<close>

theorem is_select_only_rejects_denylisted:
  "kw \<in> {''insert'', ''update'', ''delete'', ''drop'', ''alter'', ''truncate'',
          ''create table'', ''create schema'', ''attach'', ''copy'', ''pragma''} \<Longrightarrow>
   sublist kw (lower text) \<Longrightarrow> is_select_only text = False"
  by (auto simp: is_select_only_def no_forbidden_iff FORBIDDEN_KEYWORDS_def)

theorem is_select_only_rejects_denylisted_witness:
  "sublist ''update'' (lower ''SELECT Updated_at FROM t'') \<and>
   is_select_only ''SELECT Updated_at FROM t'' = False"
proof -
  have b: "sublist ''update'' (lower ''SELECT Updated_at FROM t'')"
    by code_simp
  from is_select_only_rejects_denylisted [OF _ b] b show ?thesis
    by simp
qed


section \<open>Properties of float rounding\<close>

lemma rhe_of_int: "round_half_even (of_int k) = k"
  by (simp add: round_half_even_def)

lemma rhe_err: "\<bar>of_int (round_half_even y) - y\<bar> \<le> 1 / 2"
proof -
  have "of_int \<lfloor>y\<rfloor> \<le> y" "y < of_int \<lfloor>y\<rfloor> + 1"
    by linarith+
  then show ?thesis
    by (auto simp: round_half_even_def Let_def)
qed

lemma rhe_nearest:
  assumes "\<bar>y - of_int k\<bar> < 1 / 2"
  shows "round_half_even y = k"
proof -
  have "\<bar>of_int (round_half_even y) - y\<bar> \<le> 1 / 2"
    by (rule rhe_err)
  with assms have "\<bar>(of_int (round_half_even y) :: rat) - of_int k\<bar> < 1"
    by linarith
  then have "\<bar>(of_int (round_half_even y - k) :: rat)\<bar> < 1"
    by simp
  then have "\<bar>round_half_even y - k\<bar> < 1"
    by (metis of_int_abs of_int_less_1_iff)
  then show ?thesis by simp
qed

lemma floor_log2_bounds:
  assumes "0 < x"
  shows "2 powi (floor_log2 x) \<le> x \<and> x < 2 powi (floor_log2 x + 1)"
proof (cases "1 \<le> x")
  case True
  define b where "b = bitlen \<lfloor>x\<rfloor>"
  from True have fpos: "0 < \<lfloor>x\<rfloor>" by linarith
  from bitlen_bounds [OF fpos]
  have lo: "2 ^ nat (b - 1) \<le> \<lfloor>x\<rfloor>" and hi: "\<lfloor>x\<rfloor> < 2 ^ nat b"
    by (simp_all add: b_def)
  have b1: "1 \<le> b"
    using fpos by (simp add: b_def bitlen_def floorlog_def)
  have e: "floor_log2 x = b - 1"
    using True by (simp add: floor_log2_def b_def)
  have "(2::rat) powi (b - 1) = 2 ^ nat (b - 1)"
    using b1 by (simp add: power_int_def)
  also have "\<dots> = of_int (2 ^ nat (b - 1))"
    by simp
  also have "\<dots> \<le> of_int \<lfloor>x\<rfloor>"
    using lo by (simp only: of_int_le_iff)
  also have "\<dots> \<le> x"
    by simp
  finally have L: "2 powi (b - 1) \<le> x" .
  from hi have "\<lfloor>x\<rfloor> + 1 \<le> 2 ^ nat b"
    by simp
  then have "(of_int (\<lfloor>x\<rfloor> + 1) :: rat) \<le> of_int (2 ^ nat b)"
    by (simp only: of_int_le_iff)
  moreover have "x < of_int (\<lfloor>x\<rfloor> + 1)"
    by linarith
  ultimately have "x < of_int (2 ^ nat b)"
    by linarith
  also have "\<dots> = 2 powi b"
    using b1 by (simp add: power_int_def)
  finally have U: "x < 2 powi (b - 1 + 1)"
    by simp
  from L U e show ?thesis by simp
next
  case False
  define m where "m = \<lceil>1 / x\<rceil>"
  define k where "k = bitlen (m - 1)"
  from False assms have inv: "1 < 1 / x"
    by (simp add: field_simps)
  then have m2: "2 \<le> m"
    unfolding m_def by linarith
  then have mpos: "0 < m - 1" by simp
  from bitlen_bounds [OF mpos]
  have lo: "2 ^ nat (k - 1) \<le> m - 1" and hi: "m - 1 < 2 ^ nat k"
    by (simp_all add: k_def)
  have k1: "1 \<le> k"
    using mpos by (simp add: k_def bitlen_def floorlog_def)
  have e: "floor_log2 x = - k"
    using False by (simp add: floor_log2_def k_def m_def)
  have mle: "1 / x \<le> of_int m" and mgt: "of_int (m - 1) < 1 / x"
    unfolding m_def by linarith+
  from hi have "m \<le> 2 ^ nat k" by simp
  then have "(of_int m :: rat) \<le> of_int (2 ^ nat k)"
    by (simp only: of_int_le_iff)
  moreover have "(of_int (2 ^ nat k) :: rat) = 2 ^ nat k"
    by simp
  ultimately have "1 / x \<le> 2 ^ nat k"
    using mle by linarith
  then have "1 \<le> x * 2 ^ nat k"
    using assms by (simp add: field_simps)
  then have "1 / 2 ^ nat k \<le> x"
    by (simp add: field_simps)
  moreover have "(2::rat) powi (- k) = 1 / 2 ^ nat k"
    using k1 by (simp add: power_int_def field_simps)
  ultimately have L: "2 powi (- k) \<le> x"
    by simp
  from lo have "(of_int (2 ^ nat (k - 1)) :: rat) \<le> of_int (m - 1)"
    by (simp only: of_int_le_iff)
  moreover have "(of_int (2 ^ nat (k - 1)) :: rat) = 2 ^ nat (k - 1)"
    by simp
  ultimately have "2 ^ nat (k - 1) < 1 / x"
    using mgt by linarith
  then have "x * 2 ^ nat (k - 1) < 1"
    using assms by (simp add: field_simps)
  then have "x < 1 / 2 ^ nat (k - 1)"
    by (simp add: field_simps)
  moreover have "(2::rat) powi (- k + 1) = 1 / 2 ^ nat (k - 1)"
  proof -
    have "- k + 1 = - (k - 1)" by simp
    then have "(2::rat) powi (- k + 1) = 2 powi (- (k - 1))" by simp
    also have "\<dots> = inverse (2 powi (k - 1))"
      by (rule power_int_minus)
    also have "\<dots> = 1 / 2 ^ nat (k - 1)"
      using k1 by (simp add: power_int_def field_simps)
    finally show ?thesis .
  qed
  ultimately have U: "x < 2 powi (- k + 1)"
    by simp
  from L U e show ?thesis by simp
qed

lemma fl_err: "\<bar>fl x - x\<bar> \<le> \<bar>x\<bar> / 2 ^ 53"
proof (cases "x = 0")
  case True
  then show ?thesis by (simp add: fl_def)
next
  case False
  define e where "e = floor_log2 \<bar>x\<bar> - 52"
  define s :: rat where "s = 2 powi e"
  have spos: "0 < s"
    by (simp add: s_def)
  from False have "0 < \<bar>x\<bar>" by simp
  from floor_log2_bounds [OF this] have "2 powi (e + 52) \<le> \<bar>x\<bar>"
    by (simp add: e_def)
  moreover have "(2::rat) powi (e + 52) = s * 2 ^ 52"
    by (simp add: s_def power_int_add)
  ultimately have lo: "s * 2 ^ 52 \<le> \<bar>x\<bar>"
    by simp
  have flx: "fl x = of_int (round_half_even (x / s)) * s"
    using False by (simp add: fl_def e_def s_def Let_def)
  have "fl x - x = (of_int (round_half_even (x / s)) - x / s) * s"
    using spos by (simp add: flx field_simps)
  then have "\<bar>fl x - x\<bar> = \<bar>of_int (round_half_even (x / s)) - x / s\<bar> * s"
    using spos by (simp add: abs_mult)
  also have "\<dots> \<le> 1 / 2 * s"
    using rhe_err [of "x / s"] spos by (intro mult_right_mono) simp_all
  also have "\<dots> \<le> \<bar>x\<bar> / 2 ^ 53"
    using lo by simp
  finally show ?thesis .
qed

lemma fl_exact:
  assumes "\<bar>m\<bar> < 2 ^ 53"
  shows "fl (of_int m * 2 powi k) = of_int m * 2 powi k"
proof (cases "m = 0")
  case True
  then show ?thesis by (simp add: fl_def)
next
  case False
  define x :: rat where "x = of_int m * 2 powi k"
  define e where "e = floor_log2 \<bar>x\<bar> - 52"
  have xn0: "x \<noteq> 0"
    using False by (simp add: x_def)
  then have "0 < \<bar>x\<bar>" by simp
  from floor_log2_bounds [OF this] have lo: "2 powi (e + 52) \<le> \<bar>x\<bar>"
    by (simp add: e_def)
  have "\<bar>x\<bar> = of_int \<bar>m\<bar> * 2 powi k"
    by (simp add: x_def abs_mult)
  also have "\<dots> < 2 ^ 53 * 2 powi k"
  proof -
    have "(of_int \<bar>m\<bar> :: rat) < of_int (2 ^ 53)"
      using assms by (simp only: of_int_less_iff)
    then have "(of_int \<bar>m\<bar> :: rat) < 2 ^ 53" by simp
    then show ?thesis by (intro mult_strict_right_mono) simp_all
  qed
  also have "\<dots> = 2 powi (53 + k)"
    by (simp add: power_int_add)
  finally have hi: "\<bar>x\<bar> < 2 powi (53 + k)" .
  from lo hi have "(2::rat) powi (e + 52) < 2 powi (53 + k)"
    by linarith
  then have "e + 52 < 53 + k"
    using power_int_increasing [of "53 + k" "e + 52" "2::rat"] by (cases "e + 52 < 53 + k") auto
  then have ek: "e \<le> k" by simp
  define d where "d = nat (k - e)"
  have kd: "k = e + int d"
    using ek by (simp add: d_def)
  have pk: "(2::rat) powi k = 2 ^ d * 2 powi e"
    by (simp add: kd power_int_add)
  have "x / 2 powi e = of_int (m * 2 ^ d)"
    by (simp add: x_def pk)
  then have "round_half_even (x / 2 powi e) = m * 2 ^ d"
    by (simp only: rhe_of_int)
  then have "fl x = of_int (m * 2 ^ d) * 2 powi e"
    using xn0 by (simp add: fl_def e_def Let_def)
  also have "\<dots> = x"
    by (simp add: x_def pk)
  finally show ?thesis
    by (simp add: x_def)
qed

lemma fl_int: "\<bar>n\<bar> < 2 ^ 53 \<Longrightarrow> fl (of_int n) = of_int n"
  using fl_exact [of n 0] by simp

lemma fl_half: "\<bar>m\<bar> < 2 ^ 53 \<Longrightarrow> fl (of_int m / 2) = of_int m / 2"
  using fl_exact [of m "-1"] by (simp add: power_int_minus field_simps)

section \<open>Properties of the complexity scorer\<close>

lemma count_sub_le: "sub \<noteq> [] \<Longrightarrow> count_sub sub s \<le> length s"
proof (induction sub s rule: count_sub.induct)
  case (1 sub s)
  show ?case
  proof (cases "s = []")
    case True
    with 1(3) show ?thesis by (simp add: count_sub.simps [of sub "[]"])
  next
    case False
    note ne = this
    show ?thesis
    proof (cases "prefix sub s")
      case True
      with 1 ne have "count_sub sub (drop (length sub) s) \<le> length (drop (length sub) s)"
        by simp
      then have "count_sub sub (drop (length sub) s) \<le> length s - length sub"
        by simp
      moreover have "0 < length sub" using 1(3) by simp
      moreover have "length sub \<le> length s" using True by (rule prefix_length_le)
      ultimately have "1 + count_sub sub (drop (length sub) s) \<le> length s"
        by linarith
      with 1(3) ne True show ?thesis
        by (simp add: count_sub.simps [of sub s])
    next
      case False
      with 1 ne have "count_sub sub (tl s) \<le> length (tl s)"
        by simp
      with 1(3) ne False show ?thesis
        by (simp add: count_sub.simps [of sub s])
    qed
  qed
qed

lemma fl_half_eq: "x = of_int m / 2 \<Longrightarrow> \<bar>m\<bar> < 2 ^ 53 \<Longrightarrow> fl x = x"
  by (simp only: fl_half)

lemma c02: "fl (1 / 5) = 1 / 5 + 1 / (5 * 2 ^ 54)"
  by code_simp

lemma exact_part:
  fixes j g ob v c :: nat
  assumes "j < 2 ^ 40" "g < 2 ^ 40" "ob < 2 ^ 40" "v < 2 ^ 40" "c < 2 ^ 40"
  shows "fadd (fadd (fadd (fadd (float_of_int (0 + int j * 2))
             (fmul (float_of_int (int g)) (3 / 2)))
             (fmul (float_of_int (int ob)) 1))
             (fmul (float_of_int (int v)) 3))
             (fmul (float_of_int (int c)) (3 / 2))
         = of_int (4 * int j + 3 * int g + 2 * int ob + 6 * int v + 3 * int c) / 2"
proof -
  have a0: "float_of_int (0 + int j * 2) = of_int (4 * int j) / 2"
    unfolding float_of_int_def using assms(1) by (subst fl_int) simp_all
  have fg: "float_of_int (int g) = of_int (int g)"
    unfolding float_of_int_def using assms(2) by (subst fl_int) simp_all
  have fo: "float_of_int (int ob) = of_int (int ob)"
    unfolding float_of_int_def using assms(3) by (subst fl_int) simp_all
  have fv: "float_of_int (int v) = of_int (int v)"
    unfolding float_of_int_def using assms(4) by (subst fl_int) simp_all
  have fc: "float_of_int (int c) = of_int (int c)"
    unfolding float_of_int_def using assms(5) by (subst fl_int) simp_all
  have m1: "fmul (of_int (int g)) (3 / 2) = of_int (3 * int g) / 2"
    unfolding fmul_def using assms(2) by (subst fl_half_eq [where m = "3 * int g"]) simp_all
  have m2: "fmul (of_int (int ob)) 1 = of_int (2 * int ob) / 2"
    unfolding fmul_def using assms(3) by (subst fl_half_eq [where m = "2 * int ob"]) simp_all
  have m3: "fmul (of_int (int v)) 3 = of_int (6 * int v) / 2"
    unfolding fmul_def using assms(4) by (subst fl_half_eq [where m = "6 * int v"]) simp_all
  have m4: "fmul (of_int (int c)) (3 / 2) = of_int (3 * int c) / 2"
    unfolding fmul_def using assms(5) by (subst fl_half_eq [where m = "3 * int c"]) simp_all
  have add: "fadd (of_int a / 2) (of_int b / 2) = of_int (a + b) / 2" if "\<bar>a + b\<bar> < 2 ^ 53" for a b :: int
    unfolding fadd_def using that by (subst fl_half_eq [where m = "a + b"]) (simp_all add: add_divide_distrib)
  have s1: "fadd (of_int (4 * int j) / 2) (of_int (3 * int g) / 2) = of_int (4 * int j + 3 * int g) / 2"
    using assms by (intro add) simp
  have s2: "fadd (of_int (4 * int j + 3 * int g) / 2) (of_int (2 * int ob) / 2)
      = of_int (4 * int j + 3 * int g + 2 * int ob) / 2"
    using assms by (intro add) simp
  have s3: "fadd (of_int (4 * int j + 3 * int g + 2 * int ob) / 2) (of_int (6 * int v) / 2)
      = of_int (4 * int j + 3 * int g + 2 * int ob + 6 * int v) / 2"
    using assms by (intro add) simp
  have s4: "fadd (of_int (4 * int j + 3 * int g + 2 * int ob + 6 * int v) / 2) (of_int (3 * int c) / 2)
      = of_int (4 * int j + 3 * int g + 2 * int ob + 6 * int v + 3 * int c) / 2"
    using assms by (intro add) simp
  show ?thesis
    by (simp only: a0 fg fo fv fc m1 m2 m3 m4 s1 s2 s3 s4)
qed

lemma round_part:
  fixes M :: int and p :: nat
  assumes M0: "0 \<le> M" and M1: "M < 18 * 2 ^ 40" and p1: "p < 2 ^ 40"
  shows "py_round (fadd (of_int M / 2) (fmul (float_of_int (int p)) (fl (1 / 5)))) 2
         = fl (of_int (50 * M + 20 * int p) / 100)"
proof -
  define P :: rat where "P = of_int (int p)"
  define H :: rat where "H = of_int M / 2"
  define u :: rat where "u = P * fl (1 / 5)"
  define q where "q = fl u"
  define s where "s = fl (H + q)"
  have P0: "0 \<le> P" and P1: "P \<le> 2 ^ 40"
    using p1 by (simp_all add: P_def)
  have H0: "0 \<le> H"
    using M0 by (simp add: H_def)
  have "(of_int M :: rat) \<le> of_int (18 * 2 ^ 40)"
    using M1 by (simp only: of_int_le_iff)
  then have H1: "H \<le> 9 * 2 ^ 40"
    by (simp add: H_def)
  have fp: "float_of_int (int p) = P"
    unfolding float_of_int_def P_def using p1 by (subst fl_int) simp_all
  have u_eq: "u = P / 5 + P / (5 * 2 ^ 54)"
    by (simp add: u_def c02 field_simps)
  have u0: "0 \<le> u"
    using P0 by (simp add: u_eq)
  have eq: "\<bar>q - u\<bar> \<le> u / 2 ^ 53"
    using fl_err [of u] u0 by (simp add: q_def)
  have "u / 2 ^ 53 \<le> u"
    using u0 by (simp add: field_simps)
  with eq have q0: "0 \<le> q"
    by (simp only: abs_le_iff) linarith
  have es: "\<bar>s - (H + q)\<bar> \<le> (H + q) / 2 ^ 53"
    using fl_err [of "H + q"] H0 q0 by (simp add: s_def)
  have near: "\<bar>s * 100 - of_int (50 * M + 20 * int p)\<bar> < 1 / 2"
  proof -
    have tgt: "(of_int (50 * M + 20 * int p) :: rat) = 100 * H + 20 * P"
      by (simp add: H_def P_def)
    have q_lo: "u - q \<le> u / 2 ^ 53" and q_hi: "q - u \<le> u / 2 ^ 53"
      using eq by (simp_all only: abs_le_iff) linarith+
    have s_lo: "H + q - s \<le> (H + q) / 2 ^ 53" and s_hi: "s - (H + q) \<le> (H + q) / 2 ^ 53"
      using es by (simp_all only: abs_le_iff) linarith+
    have u_lo: "P / 5 \<le> u" and u_hi: "u \<le> P / 5 + P / 2 ^ 54"
      using P0 by (simp_all add: u_eq field_simps)
    have small: "(H + q) / 2 ^ 53 \<le> 1 / 700" "u / 2 ^ 53 \<le> 1 / 700" "P / 2 ^ 54 \<le> 1 / 700"
      using q_hi u_hi P0 P1 H0 H1 by (simp_all add: field_simps)
    from q_lo q_hi s_lo s_hi u_lo u_hi small
    have "\<bar>s - (H + P / 5)\<bar> \<le> 3 / 700"
      by (simp only: abs_le_iff) linarith
    then show ?thesis
      unfolding tgt by (simp only: abs_le_iff abs_less_iff) linarith
  qed
  have "py_round s 2 = fl (of_int (round_half_even (s * 100)) / 100)"
    by (simp add: py_round_def)
  also have "round_half_even (s * 100) = 50 * M + 20 * int p"
    using near by (rule rhe_nearest)
  finally have "py_round s 2 = fl (of_int (50 * M + 20 * int p) / 100)" .
  moreover have "fadd (of_int M / 2) (fmul (float_of_int (int p)) (fl (1 / 5))) = s"
    by (simp add: fadd_def fmul_def fp s_def q_def u_def H_def)
  ultimately show ?thesis by simp
qed

lemma score_cents:
  assumes "length text < 2 ^ 40"
  shows "\<exists>K. 0 \<le> K \<and> K < 1000 * 2 ^ 40 \<and> weighted_sum text = of_int K / 100 \<and>
             complexity_score text = fl (of_int K / 100)"
proof -
  define s where "s = lower text"
  define j where "j = count_sub '' join '' s"
  define g where "g = count_sub '' group by '' s"
  define ob where "ob = count_sub '' order by '' s"
  define v where "v = count_sub '' over('' s"
  define c where "c = count_sub '' case '' s"
  define p where "p = count_sub ''('' s"
  have len: "length s < 2 ^ 40"
    using assms by (simp add: s_def lower_def)
  have b: "j < 2 ^ 40" "g < 2 ^ 40" "ob < 2 ^ 40" "v < 2 ^ 40" "c < 2 ^ 40" "p < 2 ^ 40"
    unfolding j_def g_def ob_def v_def c_def p_def
    using len by (auto intro: le_less_trans [OF count_sub_le])
  define M where "M = 4 * int j + 3 * int g + 2 * int ob + 6 * int v + 3 * int c"
  have M0: "0 \<le> M" and M1: "M < 18 * 2 ^ 40"
    using b by (simp_all add: M_def)
  define K where "K = 50 * M + 20 * int p"
  have "complexity_score text =
      py_round (fadd (fadd (fadd (fadd (fadd (float_of_int (0 + int j * 2))
             (fmul (float_of_int (int g)) (3 / 2)))
             (fmul (float_of_int (int ob)) 1))
             (fmul (float_of_int (int v)) 3))
             (fmul (float_of_int (int c)) (3 / 2)))
        (fmul (float_of_int (int p)) (fl (1 / 5)))) 2"
    by (simp add: complexity_score_def Let_def s_def j_def g_def ob_def v_def c_def p_def)
  also have "\<dots> = py_round (fadd (of_int M / 2) (fmul (float_of_int (int p)) (fl (1 / 5)))) 2"
    by (simp only: exact_part [OF b(1-5)] M_def)
  also have "\<dots> = fl (of_int K / 100)"
    unfolding K_def using M0 M1 b(6) by (rule round_part)
  finally have sc: "complexity_score text = fl (of_int K / 100)" .
  have ws: "weighted_sum text = of_int K / 100"
    by (simp add: weighted_sum_def Let_def K_def M_def s_def j_def g_def ob_def v_def c_def p_def)
  have "0 \<le> K" "K < 1000 * 2 ^ 40"
    using M0 M1 b(6) by (simp_all add: K_def)
  with sc ws show ?thesis by blast
qed

lemma round2_cents: "round2 (of_int K / 100) = of_int K / 100"
  by (simp add: round2_def rhe_of_int)

text \<open>
  Claim C5. For every text (of fewer than \<open>2 ^ 40\<close> characters, far below the length where
  float rounding could reach the second decimal), \<open>complexity_score\<close> is the float nearest
  to the weighted sum of the six case-insensitive counts rounded to two decimal places;
  the weighted sum is itself a number of two decimal places. The score is a function of
  the text alone.
\<close>

theorem complexity_score_weighted_sum:
  assumes "length text < 2 ^ 40"
  shows "complexity_score text = fl (round2 (weighted_sum text)) \<and>
         round2 (weighted_sum text) = weighted_sum text"
proof -
  from score_cents [OF assms] obtain K where
    ws: "weighted_sum text = of_int K / 100"
    and sc: "complexity_score text = fl (of_int K / 100)"
    by blast
  show ?thesis
    by (simp only: ws sc round2_cents)
qed

theorem complexity_score_weighted_sum_witness:
  "complexity_score ''SELECT a, (b) FROM t JOIN u GROUP BY x ORDER BY f((1)) '' = fl (51 / 10) \<and>
   weighted_sum ''SELECT a, (b) FROM t JOIN u GROUP BY x ORDER BY f((1)) '' = 51 / 10"
proof -
  let ?t = "''SELECT a, (b) FROM t JOIN u GROUP BY x ORDER BY f((1)) ''"
  have l: "length ?t < 2 ^ 40"
    by simp
  have w: "weighted_sum ?t = 51 / 10"
    by code_simp
  from complexity_score_weighted_sum [OF l] show ?thesis
    by (simp only: w)
qed

lemma weighted_sum_occ:
  "weighted_sum text =
     2 * of_nat (occurrences '' join '' text) +
     3 / 2 * of_nat (occurrences '' group by '' text) +
     1 * of_nat (occurrences '' order by '' text) +
     3 * of_nat (occurrences '' over('' text) +
     3 / 2 * of_nat (occurrences '' case '' text) +
     1 / 5 * of_nat (occurrences ''('' text)"
  by (simp add: weighted_sum_def occurrences_def Let_def)

lemma one_more_weighted_sum:
  assumes "(sub, w) \<in> set WEIGHTED_SUBSTRINGS" and "one_more sub t1 t2"
  shows "weighted_sum t2 = weighted_sum t1 + w"
proof -
  from assms(2) have inc: "occurrences sub t2 = occurrences sub t1 + 1"
    and same: "\<And>other. other \<in> set (map fst WEIGHTED_SUBSTRINGS) \<Longrightarrow> other \<noteq> sub \<Longrightarrow>
                 occurrences other t2 = occurrences other t1"
    by (auto simp: one_more_def)
  from assms(1) consider
      "sub = '' join ''" "w = 2" | "sub = '' group by ''" "w = 3 / 2"
    | "sub = '' order by ''" "w = 1" | "sub = '' over(''" "w = 3"
    | "sub = '' case ''" "w = 3 / 2" | "sub = ''(''" "w = 1 / 5"
    by (auto simp: WEIGHTED_SUBSTRINGS_def)
  then show ?thesis
  proof cases
    case 1
    with inc same [of "'' group by ''"] same [of "'' order by ''"] same [of "'' over(''"]
      same [of "'' case ''"] same [of "''(''"]
    show ?thesis
      by (simp add: weighted_sum_occ WEIGHTED_SUBSTRINGS_def)
  next
    case 2
    with inc same [of "'' join ''"] same [of "'' order by ''"] same [of "'' over(''"]
      same [of "'' case ''"] same [of "''(''"]
    show ?thesis
      by (simp add: weighted_sum_occ WEIGHTED_SUBSTRINGS_def)
  next
    case 3
    with inc same [of "'' join ''"] same [of "'' group by ''"] same [of "'' over(''"]
      same [of "'' case ''"] same [of "''(''"]
    show ?thesis
      by (simp add: weighted_sum_occ WEIGHTED_SUBSTRINGS_def)
  next
    case 4
    with inc same [of "'' join ''"] same [of "'' group by ''"] same [of "'' order by ''"]
      same [of "'' case ''"] same [of "''(''"]
    show ?thesis
      by (simp add: weighted_sum_occ WEIGHTED_SUBSTRINGS_def)
  next
    case 5
    with inc same [of "'' join ''"] same [of "'' group by ''"] same [of "'' order by ''"]
      same [of "'' over(''"] same [of "''(''"]
    show ?thesis
      by (simp add: weighted_sum_occ WEIGHTED_SUBSTRINGS_def)
  next
    case 6
    with inc same [of "'' join ''"] same [of "'' group by ''"] same [of "'' order by ''"]
      same [of "'' over(''"] same [of "'' case ''"]
    show ?thesis
      by (simp add: weighted_sum_occ WEIGHTED_SUBSTRINGS_def)
  qed
qed

lemma weight_cents:
  assumes "(sub, w) \<in> set WEIGHTED_SUBSTRINGS"
  shows "\<exists>W. w = of_int W / 100 \<and> 20 \<le> W \<and> W \<le> 300"
proof -
  from assms consider "w = 2" | "w = 3 / 2" | "w = 1" | "w = 3" | "w = 1 / 5"
    by (auto simp: WEIGHTED_SUBSTRINGS_def)
  then show ?thesis
  proof cases
    case 1 then show ?thesis by (intro exI [of _ 200]) simp
  next
    case 2 then show ?thesis by (intro exI [of _ 150]) simp
  next
    case 3 then show ?thesis by (intro exI [of _ 100]) simp
  next
    case 4 then show ?thesis by (intro exI [of _ 300]) simp
  next
    case 5 then show ?thesis by (intro exI [of _ 20]) simp
  qed
qed

text \<open>
  Claim C6. Of two texts (of fewer than \<open>2 ^ 40\<close> characters) that agree on every weighted
  count but for one substring, which the second has once more, the second has the strictly
  greater score; the difference of the two scores, rounded to two decimal places as
  \<open>round(b - a, 2)\<close> does, is the float of that substring's weight; and the weighted sums at
  two decimal places differ by exactly the weight.
\<close>

theorem complexity_score_one_more:
  assumes l1: "length t1 < 2 ^ 40" and l2: "length t2 < 2 ^ 40"
    and w: "(sub, w) \<in> set WEIGHTED_SUBSTRINGS" and om: "one_more sub t1 t2"
  shows "complexity_score t1 < complexity_score t2 \<and>
         py_round (fsub (complexity_score t2) (complexity_score t1)) 2 = fl w \<and>
         round2 (weighted_sum t2) = round2 (weighted_sum t1) + w"
proof -
  from score_cents [OF l1] obtain K1 where
    K1: "0 \<le> K1" "K1 < 1000 * 2 ^ 40" and ws1: "weighted_sum t1 = of_int K1 / 100"
    and sc1: "complexity_score t1 = fl (of_int K1 / 100)"
    by blast
  from score_cents [OF l2] obtain K2 where
    K2: "0 \<le> K2" "K2 < 1000 * 2 ^ 40" and ws2: "weighted_sum t2 = of_int K2 / 100"
    and sc2: "complexity_score t2 = fl (of_int K2 / 100)"
    by blast
  from weight_cents [OF w] obtain W where
    W: "w = of_int W / 100" "20 \<le> W" "W \<le> 300"
    by blast
  define E1 :: rat where "E1 = of_int K1 / 100"
  define E2 :: rat where "E2 = of_int K2 / 100"
  define S1 where "S1 = fl E1"
  define S2 where "S2 = fl E2"
  define D where "D = fl (S2 - S1)"
  have step: "E2 = E1 + w"
    using one_more_weighted_sum [OF w om] by (simp only: ws1 ws2 E1_def E2_def)
  have w_lo: "1 / 5 \<le> w" and w_hi: "w \<le> 3"
    using W by (simp_all add: field_simps)
  have E1_0: "0 \<le> E1" and E2_0: "0 \<le> E2"
    using K1(1) K2(1) by (simp_all add: E1_def E2_def)
  have "(of_int K1 :: rat) \<le> of_int (1000 * 2 ^ 40)" "(of_int K2 :: rat) \<le> of_int (1000 * 2 ^ 40)"
    using K1(2) K2(2) by (simp_all only: of_int_le_iff)
  then have E1_hi: "E1 \<le> 10 * 2 ^ 40" and E2_hi: "E2 \<le> 10 * 2 ^ 40"
    by (simp_all add: E1_def E2_def)
  have e1: "\<bar>S1 - E1\<bar> \<le> E1 / 2 ^ 53" and e2: "\<bar>S2 - E2\<bar> \<le> E2 / 2 ^ 53"
    using fl_err [of E1] fl_err [of E2] E1_0 E2_0 by (simp_all add: S1_def S2_def)
  have small: "E1 / 2 ^ 53 \<le> 1 / 800" "E2 / 2 ^ 53 \<le> 1 / 800"
    using E1_hi E2_hi by (simp_all add: field_simps)
  from e1 e2 small step have diff: "\<bar>S2 - S1 - w\<bar> \<le> 1 / 400"
    by (simp only: abs_le_iff) linarith
  with w_lo have pos: "0 < S2 - S1"
    by (simp only: abs_le_iff) linarith
  have eD: "\<bar>D - (S2 - S1)\<bar> \<le> (S2 - S1) / 2 ^ 53"
    using fl_err [of "S2 - S1"] pos by (simp add: D_def)
  have "S2 - S1 \<le> 4"
    using diff w_hi by (simp only: abs_le_iff) linarith
  then have small': "(S2 - S1) / 2 ^ 53 \<le> 1 / 800"
    by (simp add: field_simps)
  from eD small' diff have "\<bar>D - w\<bar> \<le> 3 / 800"
    by (simp only: abs_le_iff) linarith
  then have near: "\<bar>D * 100 - of_int W\<bar> < 1 / 2"
    unfolding W(1) by (simp only: abs_le_iff abs_less_iff) linarith
  have "py_round D 2 = fl (of_int (round_half_even (D * 100)) / 100)"
    by (simp add: py_round_def)
  also have "round_half_even (D * 100) = W"
    using near by (rule rhe_nearest)
  finally have pr: "py_round D 2 = fl w"
    by (simp only: W(1))
  have "round2 (weighted_sum t2) = E2" "round2 (weighted_sum t1) = E1"
    by (simp_all only: ws1 ws2 round2_cents E1_def E2_def)
  with step have r2: "round2 (weighted_sum t2) = round2 (weighted_sum t1) + w"
    by simp
  from pos have "complexity_score t1 < complexity_score t2"
    by (simp add: sc1 sc2 S1_def S2_def E1_def E2_def)
  moreover have "py_round (fsub (complexity_score t2) (complexity_score t1)) 2 = fl w"
    using pr by (simp add: fsub_def sc1 sc2 D_def S1_def S2_def E1_def E2_def)
  ultimately show ?thesis
    using r2 by simp
qed

theorem complexity_score_one_more_witness:
  "one_more '' join '' ''SELECT (a) FROM t'' ''SELECT (a) FROM t JOIN u'' \<and>
   complexity_score ''SELECT (a) FROM t'' < complexity_score ''SELECT (a) FROM t JOIN u'' \<and>
   py_round (fsub (complexity_score ''SELECT (a) FROM t JOIN u'') (complexity_score ''SELECT (a) FROM t'')) 2 = fl 2"
proof -
  let ?t1 = "''SELECT (a) FROM t''" and ?t2 = "''SELECT (a) FROM t JOIN u''"
  have l1: "length ?t1 < 2 ^ 40" and l2: "length ?t2 < 2 ^ 40"
    by simp_all
  have w: "('' join '', 2) \<in> set WEIGHTED_SUBSTRINGS"
    by (simp add: WEIGHTED_SUBSTRINGS_def)
  have om: "one_more '' join '' ?t1 ?t2"
    by code_simp
  from complexity_score_one_more [OF l1 l2 w om] om show ?thesis
    by simp
qed

section \<open>Properties of the table-name sanitiser\<close>

text \<open>
  Claim C10. For every input, \<open>_sanitize_table_name\<close> returns a non-empty string whose
  characters are all alphanumeric or the underscore and whose first character is not a digit.
\<close>

theorem sanitize_table_name_identifier:
  "sanitize_table_name name \<noteq> [] \<and>
   (\<forall>c \<in> set (sanitize_table_name name). isalnum c \<or> c = CHR ''_'') \<and>
   \<not> isdigit (hd (sanitize_table_name name))"
proof -
  have ut: "\<forall>c \<in> set ''user_table''. isalnum c \<or> c = CHR ''_''"
    by code_simp
  have t: "\<not> isdigit (CHR ''t'')" "isalnum (CHR ''t'')" "\<not> isdigit (CHR ''u'')"
    by code_simp+
  show ?thesis
    using ut t by (auto simp: sanitize_table_name_def Let_def)
qed

theorem sanitize_table_name_identifier_witness:
  "sanitize_table_name ''123 abc'' = ''t_123_abc'' \<and>
   sanitize_table_name ''123 abc'' \<noteq> [] \<and>
   list_all (\<lambda>c. isalnum c \<or> c = CHR ''_'') (sanitize_table_name ''123 abc'') \<and>
   \<not> isdigit (hd (sanitize_table_name ''123 abc''))"
proof -
  have "sanitize_table_name ''123 abc'' = ''t_123_abc''"
    by code_simp
  with sanitize_table_name_identifier [of "''123 abc''"] show ?thesis
    by (simp add: list_all_iff)
qed

section \<open>Properties of the schema introspector\<close>

lemma schema_lines_Cons:
  "schema_lines cur (r # rows) =
     (if Some (fst r) \<noteq> cur then [header_line (fst r)] else []) @ [row_line r] @
     schema_lines (Some (fst r)) rows"
  by (cases r) (simp add: header_line_def row_line_def)

lemma groups_block: "groups rows = concat (map (block rows) (remdups_adj (map fst rows)))"
  by (simp add: groups_def)

lemma block_Cons_same: "block (r # rows) (fst r) = header_line (fst r) # row_line r # tl (block rows (fst r))"
  by (simp add: block_def)

lemma block_Cons_other: "t \<noteq> fst r \<Longrightarrow> block (r # rows) t = block rows t"
  by (simp add: block_def)

lemma distinct_remdups_adj_sorted:
  fixes xs :: "'a::linorder list"
  shows "sorted xs \<Longrightarrow> distinct (remdups_adj xs)"
  by (induction xs rule: remdups_adj.induct) auto

lemma groups_Cons_same:
  assumes "sorted (map fst (r # r2 # rest))" and "fst r2 = fst r"
  shows "groups (r # r2 # rest) = header_line (fst r) # row_line r # tl (groups (r2 # rest))"
proof -
  let ?t = "fst r"
  obtain ts where rd: "remdups_adj (map fst (r2 # rest)) = ?t # ts"
    using assms(2) by (metis list.simps(9) remdups_adj_Cons_alt)
  have rd': "remdups_adj (map fst (r # r2 # rest)) = ?t # ts"
    using assms(2) rd by simp
  have "sorted (map fst (r2 # rest))"
    using assms(1) by simp
  then have "distinct (remdups_adj (map fst (r2 # rest)))"
    by (rule distinct_remdups_adj_sorted)
  with rd have notin: "?t \<notin> set ts"
    by simp
  have same: "map (block (r # r2 # rest)) ts = map (block (r2 # rest)) ts"
  proof (rule map_cong [OF refl])
    fix x assume "x \<in> set ts"
    with notin have "x \<noteq> fst r" by auto
    then show "block (r # r2 # rest) x = block (r2 # rest) x"
      by (simp add: block_Cons_other)
  qed
  have "groups (r # r2 # rest) = block (r # r2 # rest) ?t @ concat (map (block (r # r2 # rest)) ts)"
    unfolding groups_block rd' by simp
  also have "\<dots> = header_line ?t # row_line r # tl (block (r2 # rest) ?t) @ concat (map (block (r2 # rest)) ts)"
    by (simp only: same block_Cons_same [of r "r2 # rest"] append_Cons)
  also have "\<dots> = header_line ?t # row_line r # tl (groups (r2 # rest))"
    unfolding groups_block rd by (simp add: block_def)
  finally show ?thesis .
qed

lemma groups_Cons_other:
  assumes "\<forall>x \<in> set rest. fst x \<noteq> fst r"
  shows "groups (r # rest) = header_line (fst r) # row_line r # groups rest"
proof -
  let ?t = "fst r"
  have rd: "remdups_adj (map fst (r # rest)) = ?t # remdups_adj (map fst rest)"
    using assms by (cases rest) auto
  have none: "filter (\<lambda>x. fst x = ?t) rest = []"
    using assms by (simp add: filter_empty_conv)
  have same: "map (block (r # rest)) (remdups_adj (map fst rest))
      = map (block rest) (remdups_adj (map fst rest))"
  proof (rule map_cong [OF refl])
    fix x assume "x \<in> set (remdups_adj (map fst rest))"
    with assms have "x \<noteq> fst r" by auto
    then show "block (r # rest) x = block rest x"
      by (simp add: block_Cons_other)
  qed
  have "groups (r # rest) = block (r # rest) ?t @ concat (map (block (r # rest)) (remdups_adj (map fst rest)))"
    unfolding groups_block rd by simp
  also have "\<dots> = header_line ?t # row_line r # concat (map (block rest) (remdups_adj (map fst rest)))"
    using none by (simp only: same) (simp add: block_def)
  finally show ?thesis
    by (simp add: groups_block)
qed

lemma schema_lines_groups:
  "sorted (map fst rows) \<Longrightarrow>
     schema_lines cur rows =
       (case rows of [] \<Rightarrow> [] | r # _ \<Rightarrow> if cur = Some (fst r) then tl (groups rows) else groups rows)"
proof (induction rows arbitrary: cur)
  case Nil
  then show ?case by simp
next
  case (Cons r rest)
  have srt: "sorted (map fst rest)"
    using Cons.prems by simp
  have step: "groups (r # rest) = header_line (fst r) # row_line r # schema_lines (Some (fst r)) rest"
  proof (cases rest)
    case Nil
    then show ?thesis by (simp add: groups_def block_def)
  next
    case (Cons r2 rest2)
    show ?thesis
    proof (cases "fst r2 = fst r")
      case True
      with Cons.IH [OF srt, of "Some (fst r)"] Cons
      have "schema_lines (Some (fst r)) rest = tl (groups rest)"
        by simp
      with groups_Cons_same [of r r2 rest2] Cons.prems Cons True show ?thesis
        by simp
    next
      case False
      with Cons.IH [OF srt, of "Some (fst r)"] Cons
      have sl: "schema_lines (Some (fst r)) rest = groups rest"
        by auto
      have "\<forall>x \<in> set rest. fst x \<noteq> fst r"
      proof
        fix x assume x: "x \<in> set rest"
        from Cons.prems Cons have "fst r \<le> fst r2" by simp
        with False have lt: "fst r < fst r2" by simp
        from srt Cons x have "fst r2 \<le> fst x" by auto
        with lt show "fst x \<noteq> fst r" by auto
      qed
      from groups_Cons_other [OF this] sl show ?thesis
        by simp
    qed
  qed
  show ?case
    unfolding schema_lines_Cons step [symmetric] by (simp add: step)
qed

lemma insort_key_pair:
  fixes f :: "'a \<Rightarrow> 'k::linorder" and g :: "'a \<Rightarrow> 'p::linorder"
  assumes "\<forall>x \<in> set xs. f x = t" and "f a = t"
  shows "insort_key (\<lambda>c. (f c, g c)) a xs = insort_key g a xs"
  using assms by (induction xs) auto

lemma sort_key_pair:
  fixes f :: "'a \<Rightarrow> 'k::linorder" and g :: "'a \<Rightarrow> 'p::linorder"
  assumes "\<forall>x \<in> set xs. f x = t"
  shows "sort_key (\<lambda>c. (f c, g c)) xs = sort_key g xs"
  using assms
proof (induction xs)
  case Nil
  then show ?case by simp
next
  case (Cons a xs)
  then have "sort_key (\<lambda>c. (f c, g c)) xs = sort_key g xs"
    by simp
  moreover have "\<forall>x \<in> set (sort_key g xs). f x = t"
    using Cons.prems by simp
  ultimately show ?case
    using Cons.prems by (simp add: insort_key_pair [where t = t])
qed

lemma sorted_map_fst_key:
  fixes f :: "'a \<Rightarrow> 'k::linorder" and g :: "'a \<Rightarrow> 'p::linorder"
  shows "sorted (map (\<lambda>c. (f c, g c)) xs) \<Longrightarrow> sorted (map f xs)"
  by (induction xs) (auto simp: less_eq_prod_def)

lemma schema_lines_None:
  "sorted (map fst rows) \<Longrightarrow> schema_lines None rows = groups rows"
  using schema_lines_groups [of rows None] by (cases rows) (simp_all add: groups_def block_def)

lemma schema_lines_spec:
  "schema_lines None (schema_query cat) = concat (map (name_block cat) (described_names cat))"
proof -
  let ?key = "\<lambda>c. (table_name c, ordinal_position c)"
  let ?tr = "\<lambda>c. (table_name c, column_name c, data_type c)"
  let ?rows = "sort_key ?key (main_columns cat)"
  let ?triples = "map ?tr ?rows"
  have names: "map fst ?triples = map table_name ?rows"
    by (simp add: comp_def)
  have "sorted (map ?key ?rows)"
    by (rule sorted_sort_key)
  then have srt: "sorted (map table_name ?rows)"
    by (rule sorted_map_fst_key)
  have "sorted (map fst ?triples)"
    using srt by (simp only: names)
  then have s1: "schema_lines None ?triples = groups ?triples"
    by (rule schema_lines_None)
  have tabs: "remdups_adj (map table_name ?rows) = described_names cat"
  proof (rule sorted_distinct_set_unique)
    show "sorted (remdups_adj (map table_name ?rows))"
      using srt by simp
    show "distinct (remdups_adj (map table_name ?rows))"
      using srt by (rule distinct_remdups_adj_sorted)
    show "sorted (described_names cat)" "distinct (described_names cat)"
      by (simp_all add: described_names_def)
    show "set (remdups_adj (map table_name ?rows)) = set (described_names cat)"
      by (simp add: described_names_def)
  qed
  have blk: "block ?triples t = name_block cat t" for t
  proof -
    have "filter (\<lambda>r. fst r = t) ?triples = map ?tr (filter (\<lambda>c. table_name c = t) ?rows)"
      by (simp add: filter_map comp_def)
    also have "filter (\<lambda>c. table_name c = t) ?rows = sort_key ?key (filter (\<lambda>c. table_name c = t) (main_columns cat))"
      by (rule filter_sort)
    also have "\<dots> = sort_key ordinal_position (filter (\<lambda>c. table_name c = t) (main_columns cat))"
      by (rule sort_key_pair [where t = t]) simp
    finally show ?thesis
      by (simp add: block_def name_block_def row_line_def column_line_def comp_def)
  qed
  have "groups ?triples = concat (map (block ?triples) (remdups_adj (map fst ?triples)))"
    by (rule groups_block)
  also have "\<dots> = concat (map (name_block cat) (described_names cat))"
    unfolding names tabs using blk by (simp cong: map_cong)
  finally show ?thesis
    using s1 by (simp add: schema_query_def)
qed


lemma names_unique_iff:
  "names_unique cat \<longleftrightarrow>
     (\<forall>c \<in> set (main_columns cat). \<forall>c' \<in> set (main_columns cat).
        table_name c' = table_name c \<longrightarrow> table_catalog c' = table_catalog c)"
  by (auto simp: names_unique_def list_all_iff)

lemma sorted_map_fst:
  fixes xs :: "('a::linorder \<times> 'b::linorder) list"
  shows "sorted xs \<Longrightarrow> sorted (map fst xs)"
  by (induction xs) (auto simp: less_eq_prod_def)

lemma main_tables_names:
  assumes "names_unique cat"
  shows "map fst (main_tables cat) = described_names cat"
proof (rule sorted_distinct_set_unique)
  let ?ids = "table_id ` set (main_columns cat)"
  from assms have uniq: "\<forall>c \<in> set (main_columns cat). \<forall>c' \<in> set (main_columns cat).
        table_name c' = table_name c \<longrightarrow> table_catalog c' = table_catalog c"
    by (simp only: names_unique_iff)
  show "sorted (map fst (main_tables cat))"
    unfolding main_tables_def by (rule sorted_map_fst) simp
  have "inj_on fst ?ids"
  proof (rule inj_onI)
    fix x y assume "x \<in> ?ids" "y \<in> ?ids" "fst x = fst y"
    then obtain c c' where cc: "c \<in> set (main_columns cat)" "c' \<in> set (main_columns cat)"
      and xy: "x = table_id c" "y = table_id c'" and nm: "table_name c' = table_name c"
      by (auto simp: table_id_def)
    from uniq cc nm have "table_catalog c' = table_catalog c"
      by blast
    with xy nm show "x = y"
      by (simp add: table_id_def)
  qed
  then show "distinct (map fst (main_tables cat))"
    unfolding main_tables_def by (simp add: distinct_map)
  show "sorted (described_names cat)" "distinct (described_names cat)"
    by (simp_all add: described_names_def)
  show "set (map fst (main_tables cat)) = set (described_names cat)"
    by (simp add: main_tables_def described_names_def image_image table_id_def)
qed

lemma table_block_name_block:
  assumes "names_unique cat" and "tid \<in> set (main_tables cat)"
  shows "table_block cat tid = name_block cat (fst tid)"
proof -
  from assms(2) obtain c0 where c0: "c0 \<in> set (main_columns cat)" "tid = table_id c0"
    by (auto simp: main_tables_def)
  from assms(1) have uniq: "\<forall>c \<in> set (main_columns cat). \<forall>c' \<in> set (main_columns cat).
        table_name c' = table_name c \<longrightarrow> table_catalog c' = table_catalog c"
    by (simp only: names_unique_iff)
  have "filter (\<lambda>c. table_id c = tid) (main_columns cat) =
        filter (\<lambda>c. table_name c = fst tid) (main_columns cat)"
  proof (rule filter_cong [OF refl])
    fix c assume c: "c \<in> set (main_columns cat)"
    show "(table_id c = tid) = (table_name c = fst tid)"
    proof
      assume "table_id c = tid"
      then show "table_name c = fst tid"
        by (auto simp: table_id_def)
    next
      assume nm: "table_name c = fst tid"
      with c0 have "table_name c = table_name c0"
        by (simp add: table_id_def)
      with uniq c c0(1) have "table_catalog c = table_catalog c0"
        by blast
      with nm c0 show "table_id c = tid"
        by (simp add: table_id_def)
    qed
  qed
  then show ?thesis
    by (simp add: table_block_def name_block_def columns_of_def)
qed

lemma per_table_lines_unique:
  assumes "names_unique cat"
  shows "per_table_lines cat = concat (map (name_block cat) (described_names cat))"
proof -
  have "map (table_block cat) (main_tables cat) =
        map (\<lambda>tid. name_block cat (fst tid)) (main_tables cat)"
    using assms by (intro map_cong [OF refl]) (rule table_block_name_block)
  also have "\<dots> = map (name_block cat) (map fst (main_tables cat))"
    by (simp add: comp_def)
  also have "\<dots> = map (name_block cat) (described_names cat)"
    using assms by (simp only: main_tables_names)
  finally show ?thesis
    by (simp add: per_table_lines_def)
qed

lemma columns_of_nonempty:
  assumes "tid \<in> set (main_tables cat)"
  shows "columns_of cat tid \<noteq> []"
proof -
  from assms obtain c0 where "c0 \<in> set (main_columns cat)" "tid = table_id c0"
    by (auto simp: main_tables_def)
  then have "c0 \<in> set (columns_of cat tid)"
    by (simp add: columns_of_def)
  then show ?thesis
    by auto
qed

text \<open>
  Claim C9, as stated, fails: the loop starts a new header when the table name changes,
  and the query orders by name and position only. A table \<open>t\<close> of the database and a
  temporary table \<open>t\<close>, both in the schema \<open>main\<close>, are two tables; the text has one header
  for them, and under it the columns of the two tables interleaved by position, so it is
  not a header and the columns of each table in turn.
\<close>

theorem introspect_schema_same_name_counterexample:
  "main_tables shadowed_catalog = [(''t'', ''memory''), (''t'', ''temp'')] \<and>
   introspect_schema shadowed_catalog =
     join [CHR 0x0A]
       [[CHR 0x0A] @ ''TABLE t:'', ''  - a (INTEGER)'', ''  - x (VARCHAR)'', ''  - b (INTEGER)''] \<and>
   per_table_lines shadowed_catalog =
       [[CHR 0x0A] @ ''TABLE t:'', ''  - a (INTEGER)'', ''  - b (INTEGER)'',
        [CHR 0x0A] @ ''TABLE t:'', ''  - x (VARCHAR)''] \<and>
   introspect_schema shadowed_catalog \<noteq> join [CHR 0x0A] (per_table_lines shadowed_catalog)"
  by code_simp

text \<open>
  Claim C9, amended. For every catalog in which no two tables of the schema \<open>main\<close> share a
  name, the text is the lines joined by newlines where the lines are, for each table in
  the order of the names, one header line and then one line per column in the order of
  the declared positions, showing the column's name and type. For every catalog, the
  text has one header per table name of the schema, in order, followed by one line for
  each column entry that carries the name, in the order of the positions. Every table of
  a catalog has a column, so no header stands without a column line.
\<close>

theorem introspect_schema_tables:
  "(names_unique cat \<longrightarrow> introspect_schema cat = join [CHR 0x0A] (per_table_lines cat)) \<and>
   introspect_schema cat =
     join [CHR 0x0A] (concat (map (name_block cat) (described_names cat))) \<and>
   (\<forall>tid \<in> set (main_tables cat). columns_of cat tid \<noteq> [])"
proof (intro conjI impI ballI)
  show "introspect_schema cat =
      join [CHR 0x0A] (concat (map (name_block cat) (described_names cat)))"
    by (simp only: introspect_schema_def schema_lines_spec)
  then show "introspect_schema cat = join [CHR 0x0A] (per_table_lines cat)" if "names_unique cat"
    using that by (simp only: per_table_lines_unique)
  show "columns_of cat tid \<noteq> []" if "tid \<in> set (main_tables cat)" for tid
    using that by (rule columns_of_nonempty)
qed

theorem introspect_schema_tables_witness:
  "names_unique sample_catalog \<and>
   main_tables sample_catalog = [(''people'', ''memory''), (''transactions'', ''memory'')] \<and>
   introspect_schema sample_catalog = join [CHR 0x0A] (per_table_lines sample_catalog) \<and>
   columns_of sample_catalog (''people'', ''memory'') \<noteq> []"
proof -
  have u: "names_unique sample_catalog"
    by code_simp
  have t: "main_tables sample_catalog = [(''people'', ''memory''), (''transactions'', ''memory'')]"
    by code_simp
  from introspect_schema_tables [of sample_catalog] u t show ?thesis
    by simp
qed

section \<open>Properties of the fight orchestrator\<close>

text \<open>
  Claim C1. The claim asks that an exception of the agent's \<open>generate_sql\<close> be caught and
  folded into a failed turn record. \<open>run_fight\<close> calls \<open>generate_sql\<close> outside its \<open>try\<close>: when
  the first agent raises in round 1 of a fight between two agents, \<open>run_fight\<close> raises the
  same exception and no turn record is made.
\<close>

theorem run_fight_agent_exception_propagates:
  assumes "mode \<noteq> ''you_vs_ai''" and "1 \<le> rounds m"
    and "generate_sql w (agent_a m) 1 (schema_description m) None None
           (theme_prompt theme @ '' '' @ difficulty_prompt difficulty) = Inl e"
  shows "run_fight w m mode human_sqls theme difficulty on_progress = (Inl e, m)"
  using assms
  by (simp add: run_fight_def preflight_def upto_rec1 obtain_sql_def initial_state_def
        finish_def Let_def)

theorem run_fight_agent_exception_propagates_witness:
  "run_fight failing_world sample_manager ''ai_vs_ai'' None ''Gaming'' ''Chill'' None =
     (Inl (Raised ''connection reset''), sample_manager)"
proof -
  have a: "''ai_vs_ai'' \<noteq> ''you_vs_ai''"
    by simp
  have b: "1 \<le> rounds sample_manager"
    by (simp add: sample_manager_def new_FightManager_def)
  have c: "generate_sql failing_world (agent_a sample_manager) 1
             (schema_description sample_manager) None None
             (theme_prompt ''Gaming'' @ '' '' @ difficulty_prompt ''Chill'') =
           Inl (Raised ''connection reset'')"
    by (simp add: failing_world_def)
  show ?thesis
    using run_fight_agent_exception_propagates [OF a b c] .
qed

subsection \<open>The loop only appends, and every record it appends is consistent\<close>

lemma fight_loop_appends:
  "fight_loop w m mode hs th dt cb rs st = (r, st') \<Longrightarrow>
     \<exists>new. self_turns st' = self_turns st @ new \<and> length new \<le> length rs \<and>
           (\<forall>t \<in> set new. record_consistent t)"
proof (induction rs arbitrary: st)
  case Nil
  then show ?case by simp
next
  case (Cons round_num rest)
  show ?case
  proof (cases "obtain_sql w m mode hs round_num st")
    case (Inl e)
    with Cons.prems show ?thesis by simp
  next
    case (Inr res)
    obtain q tokens hidx where res: "res = (q, tokens, hidx)"
      by (cases res) auto
    define outcome where "outcome =
      (if \<not> is_select_only q
       then (Some ''Rejected: query is not SELECT-only or contains forbidden keywords.'', None)
       else (case try_execute w round_num q of
               Inl msg \<Rightarrow> (Some msg, None)
             | Inr preview \<Rightarrow> (None, Some preview)))"
    define turn where "turn =
      \<lparr>round_number = round_num, agent_name = name_of w (current_agent st),
       prompt = challenge st, sql = q,
       is_valid_sql = (is_select_only q \<and> fst outcome = None),
       error = fst outcome, rows_preview = snd outcome,
       score = complexity_score q, duration_seconds = elapsed w round_num,
       estimated_tokens = Some tokens\<rparr>"
    have ok: "record_consistent turn"
      by (auto simp: record_consistent_def turn_def outcome_def split: sum.splits)
    show ?thesis
    proof (cases "case cb of None \<Rightarrow> None | Some notify \<Rightarrow> notify round_num (rounds m)")
      case None
      from Cons.prems Inr res None obtain st1 where
        rec: "fight_loop w m mode hs th dt cb rest st1 = (r, st')"
        and st1: "self_turns st1 = self_turns st @ [turn]"
        by (simp add: Let_def turn_def outcome_def)
      from Cons.IH [OF rec] obtain new where
        "self_turns st' = self_turns st1 @ new" "length new \<le> length rest"
        "\<forall>t \<in> set new. record_consistent t"
        by blast
      with st1 ok have "self_turns st' = self_turns st @ (turn # new) \<and>
          length (turn # new) \<le> length (round_num # rest) \<and>
          (\<forall>t \<in> set (turn # new). record_consistent t)"
        by simp
      then show ?thesis by blast
    next
      case (Some e)
      with Cons.prems Inr res have "self_turns st' = self_turns st @ [turn]"
        by (auto simp add: Let_def turn_def outcome_def)
      with ok have "self_turns st' = self_turns st @ [turn] \<and>
          length [turn] \<le> length (round_num # rest) \<and>
          (\<forall>t \<in> set [turn]. record_consistent t)"
        by simp
      then show ?thesis by blast
    qed
  qed
qed

text \<open>
  Claim C8. Whatever \<open>run_fight\<close> does, return or raise, the turn records it has added to
  the manager are consistent: a record with an error is not valid, and a valid record
  without error has a row preview.
\<close>

theorem run_fight_records_consistent:
  assumes "run_fight w m mode human_sqls theme difficulty on_progress = (res, m')"
  shows "\<exists>new. turns m' = turns m @ new \<and> (\<forall>t \<in> set new. record_consistent t)"
proof (cases "preflight m mode human_sqls")
  case (Some e)
  with assms have "turns m' = turns m @ []"
    by (auto simp: run_fight_def)
  then show ?thesis
    by (intro exI [of _ "[]"]) simp
next
  case None
  let ?st0 = "initial_state m theme difficulty"
  obtain r st' where loop:
    "fight_loop w m mode human_sqls theme (difficulty_prompt difficulty) on_progress
       [1..rounds m] ?st0 = (r, st')"
    by (cases "fight_loop w m mode human_sqls theme (difficulty_prompt difficulty) on_progress
                 [1..rounds m] ?st0")
  from fight_loop_appends [OF loop] obtain new where
    new: "self_turns st' = self_turns ?st0 @ new" "\<forall>t \<in> set new. record_consistent t"
    by blast
  from assms None loop have "turns m' = self_turns st'"
    by (cases r) (auto simp: run_fight_def finish_def)
  with new have "turns m' = turns m @ new \<and> (\<forall>t \<in> set new. record_consistent t)"
    by (simp add: initial_state_def Let_def)
  then show ?thesis by blast
qed

theorem run_fight_records_consistent_witness:
  "\<exists>new. turns (snd (run_fight sample_world sample_manager ''ai_vs_ai'' None ''Gaming'' ''Chill'' None)) =
           turns sample_manager @ new \<and> (\<forall>t \<in> set new. record_consistent t)"
  using run_fight_records_consistent [OF surjective_pairing] .

subsection \<open>A fight between two agents\<close>

lemma fight_loop_dual:
  assumes mode: "mode \<noteq> ''you_vs_ai''"
    and gen: "\<forall>ag r sch pq ps ch. \<exists>text. generate_sql w ag r sch pq ps ch = Inr text"
    and cb: "\<forall>notify. cb = Some notify \<longrightarrow> (\<forall>i n. notify i n = None)"
  shows "current_agent st \<in> {agent_a m, agent_b m} \<Longrightarrow>
         \<exists>st' new. fight_loop w m mode hs th dt cb rs st = (None, st') \<and>
           self_turns st' = self_turns st @ new \<and>
           map round_number new = rs \<and>
           (\<forall>i < length new. agent_name (new ! i) =
              name_of w (if even i then current_agent st
                         else if current_agent st = agent_a m then agent_b m else agent_a m))"
proof (induction rs arbitrary: st)
  case Nil
  then show ?case by simp
next
  case (Cons round_num rest)
  define c where "c = current_agent st"
  define c' where "c' = (if c = agent_a m then agent_b m else agent_a m)"
  have c_side: "c \<in> {agent_a m, agent_b m}"
    using Cons.prems by (simp add: c_def)
  obtain q where q: "generate_sql w c round_num (schema_description m)
                (previous_query st) (previous_result_summary st) (challenge st) = Inr q"
    using gen by blast
  have ob: "obtain_sql w m mode hs round_num st = Inr (q, estimate_tokens q, human_turn_index st)"
    using mode q by (simp add: obtain_sql_def c_def)
  have quiet: "(case cb of None \<Rightarrow> None | Some notify \<Rightarrow> notify round_num (rounds m)) = None"
    using cb by (cases cb) auto
  obtain st1 turn where
    unf: "fight_loop w m mode hs th dt cb (round_num # rest) st =
          fight_loop w m mode hs th dt cb rest st1"
    and st1: "self_turns st1 = self_turns st @ [turn]" "current_agent st1 = c'"
    and turn: "round_number turn = round_num" "agent_name turn = name_of w c"
    using ob quiet by (simp add: Let_def c_def c'_def)
  have c'_side: "current_agent st1 \<in> {agent_a m, agent_b m}"
    using st1 by (simp add: c'_def)
  from Cons.IH [OF c'_side] obtain st' new where
    run: "fight_loop w m mode hs th dt cb rest st1 = (None, st')"
    and app: "self_turns st' = self_turns st1 @ new"
    and rn: "map round_number new = rest"
    and names: "\<forall>i < length new. agent_name (new ! i) =
              name_of w (if even i then current_agent st1
                         else if current_agent st1 = agent_a m then agent_b m else agent_a m)"
    by blast
  have swap_twice: "(if c' = agent_a m then agent_b m else agent_a m) = c"
    using c_side by (auto simp: c'_def)
  have names': "\<forall>i < length (turn # new). agent_name ((turn # new) ! i) =
              name_of w (if even i then c else c')"
  proof (intro allI impI)
    fix i assume i: "i < length (turn # new)"
    show "agent_name ((turn # new) ! i) = name_of w (if even i then c else c')"
    proof (cases i)
      case 0
      with turn show ?thesis by simp
    next
      case (Suc k)
      with i have k: "k < length new" by simp
      with names st1 swap_twice
      have "agent_name (new ! k) = name_of w (if even k then c' else c)"
        by simp
      then show ?thesis
        unfolding Suc by simp
    qed
  qed
  have "fight_loop w m mode hs th dt cb (round_num # rest) st = (None, st') \<and>
           self_turns st' = self_turns st @ (turn # new) \<and>
           map round_number (turn # new) = round_num # rest \<and>
           (\<forall>i < length (turn # new). agent_name ((turn # new) ! i) =
              name_of w (if even i then current_agent st
                         else if current_agent st = agent_a m then agent_b m else agent_a m))"
    using unf run app st1 rn turn names' by (simp add: c_def c'_def)
  then show ?case
    by - (rule exI [of _ st'], rule exI [of _ "turn # new"], assumption)
qed

text \<open>
  Claim C4. In a fight between two agents (any mode other than \<open>you_vs_ai\<close>) whose
  \<open>generate_sql\<close> always returns a text, with no progress callback or one that returns,
  \<open>run_fight\<close> returns, and it has appended exactly \<open>rounds\<close> turn records to the turns the
  manager held (none, for a manager just made): their round numbers are 1 to \<open>rounds\<close> in
  order and their agent names alternate, agent A first.
\<close>

theorem run_fight_dual_agent_turns:
  assumes mode: "mode \<noteq> ''you_vs_ai''"
    and gen: "\<forall>ag r sch pq ps ch. \<exists>text. generate_sql w ag r sch pq ps ch = Inr text"
    and cb: "\<forall>notify. on_progress = Some notify \<longrightarrow> (\<forall>i n. notify i n = None)"
  shows "\<exists>new. run_fight w m mode human_sqls theme difficulty on_progress =
                  (Inr (turns m @ new), m\<lparr>turns := turns m @ new\<rparr>) \<and>
           int (length new) = max 0 (rounds m) \<and>
           map round_number new = [1..rounds m] \<and>
           (\<forall>i < length new. agent_name (new ! i) =
              name_of w (if even i then agent_a m else agent_b m))"
proof -
  let ?st0 = "initial_state m theme difficulty"
  have st0: "current_agent ?st0 = agent_a m" "self_turns ?st0 = turns m"
    by (simp_all add: initial_state_def Let_def)
  then have "current_agent ?st0 \<in> {agent_a m, agent_b m}"
    by simp
  from fight_loop_dual [OF mode gen cb this]
  obtain st' new where
    run: "fight_loop w m mode human_sqls theme (difficulty_prompt difficulty) on_progress
            [1..rounds m] ?st0 = (None, st')"
    and app: "self_turns st' = self_turns ?st0 @ new"
    and rn: "map round_number new = [1..rounds m]"
    and names: "\<forall>i < length new. agent_name (new ! i) =
              name_of w (if even i then current_agent ?st0
                         else if current_agent ?st0 = agent_a m then agent_b m else agent_a m)"
    by blast
  have pre: "preflight m mode human_sqls = None"
    using mode by (simp add: preflight_def)
  from rn have "length new = length [1..rounds m]"
    by (metis length_map)
  then have len: "int (length new) = max 0 (rounds m)"
    by simp
  have "run_fight w m mode human_sqls theme difficulty on_progress =
                  (Inr (turns m @ new), m\<lparr>turns := turns m @ new\<rparr>)"
    using pre run app st0 by (simp add: run_fight_def finish_def)
  with len rn names st0 show ?thesis by auto
qed

theorem run_fight_dual_agent_turns_witness:
  "\<exists>new. run_fight sample_world sample_manager ''ai_vs_ai'' None ''Gaming'' ''Chill'' None =
            (Inr (turns sample_manager @ new),
             sample_manager\<lparr>turns := turns sample_manager @ new\<rparr>) \<and>
          int (length new) = max 0 (rounds sample_manager) \<and>
          map round_number new = [1..rounds sample_manager] \<and>
          (\<forall>i < length new. agent_name (new ! i) =
             name_of sample_world
               (if even i then agent_a sample_manager else agent_b sample_manager))"
proof -
  have a: "''ai_vs_ai'' \<noteq> ''you_vs_ai''"
    by simp
  have b: "\<forall>ag r sch pq ps ch. \<exists>text. generate_sql sample_world ag r sch pq ps ch = Inr text"
    by (simp add: sample_world_def)
  have c: "\<forall>notify. (None :: (int \<Rightarrow> int \<Rightarrow> exn option) option) = Some notify \<longrightarrow>
             (\<forall>i n. notify i n = None)"
    by simp
  show ?thesis
    using run_fight_dual_agent_turns [OF a b c] .
qed

subsection \<open>The validation of the human mode\<close>

text \<open>
  Claim C7, as stated, fails: with one round and an empty list of human queries the
  length equals \<open>rounds // 2\<close>, and \<open>run_fight\<close> raises the configuration error all the same,
  because the test \<open>not human_sqls\<close> also holds of the empty list.
\<close>

theorem run_fight_preflight_empty_list_counterexample:
  "int (length ([] :: string list)) = rounds (sample_manager\<lparr>rounds := 1\<rparr>) div 2 \<and>
   run_fight sample_world (sample_manager\<lparr>rounds := 1\<rparr>) ''you_vs_ai'' (Some [])
       ''Gaming'' ''Chill'' None =
     (Inl (ValueError ''Expected 0 human SQL queries, but got 0.''),
      sample_manager\<lparr>rounds := 1\<rparr>)"
  by code_simp

text \<open>
  Claim C7, amended. In the mode \<open>you_vs_ai\<close>, \<open>run_fight\<close> raises the configuration error,
  with the manager untouched, exactly when the human queries are absent, or an empty list,
  or a list whose length differs from \<open>rounds // 2\<close>; for a non-empty list of length
  \<open>rounds // 2\<close> the validation raises nothing and the result is the one of the loop over
  the rounds.
\<close>

theorem run_fight_human_preflight:
  "(\<not> preflight_passes m human_sqls \<longrightarrow>
      run_fight w m ''you_vs_ai'' human_sqls theme difficulty on_progress =
        (Inl (ValueError (''Expected '' @ str_int (rounds m div 2) @
                '' human SQL queries, but got '' @
                str_int (case human_sqls of None \<Rightarrow> 0 | Some hs \<Rightarrow> int (length hs)) @ ''.'')),
         m)) \<and>
   (preflight_passes m human_sqls \<longrightarrow>
      run_fight w m ''you_vs_ai'' human_sqls theme difficulty on_progress =
        finish m (fight_loop w m ''you_vs_ai'' human_sqls theme (difficulty_prompt difficulty)
                    on_progress [1..rounds m] (initial_state m theme difficulty)))"
  by (cases human_sqls) (auto simp: preflight_passes_def run_fight_def preflight_def Let_def)

theorem run_fight_human_preflight_witness:
  "\<not> preflight_passes sample_manager (Some [''SELECT 1'', ''SELECT 2'']) \<and>
   run_fight sample_world sample_manager ''you_vs_ai'' (Some [''SELECT 1'', ''SELECT 2''])
       ''Gaming'' ''Chill'' None =
     (Inl (ValueError ''Expected 1 human SQL queries, but got 2.''), sample_manager) \<and>
   preflight_passes sample_manager (Some [''SELECT 1'']) \<and>
   run_fight sample_world sample_manager ''you_vs_ai'' (Some [''SELECT 1''])
       ''Gaming'' ''Chill'' None =
     finish sample_manager
       (fight_loop sample_world sample_manager ''you_vs_ai'' (Some [''SELECT 1'']) ''Gaming''
          (difficulty_prompt ''Chill'') None [1..rounds sample_manager]
          (initial_state sample_manager ''Gaming'' ''Chill''))"
proof -
  have r: "rounds sample_manager = 2"
    by (simp add: sample_manager_def new_FightManager_def)
  have n: "\<not> preflight_passes sample_manager (Some [''SELECT 1'', ''SELECT 2''])"
    by (simp add: preflight_passes_def r)
  have p: "preflight_passes sample_manager (Some [''SELECT 1''])"
    by (simp add: preflight_passes_def r)
  have s1: "str_int 1 = ''1''" and s2: "str_int 2 = ''2''"
    by code_simp+
  from n p r s1 s2
    run_fight_human_preflight [of sample_manager "Some [''SELECT 1'', ''SELECT 2'']"
      sample_world "''Gaming''" "''Chill''" None]
    run_fight_human_preflight [of sample_manager "Some [''SELECT 1'']"
      sample_world "''Gaming''" "''Chill''" None]
  show ?thesis
    by simp
qed

end
